theory Spec2Isabelle
  imports Complex_Main
begin

section \<open>Characters and the conversions of the host language\<close>

text \<open>
  The source text is a Python \<open>str\<close>. The model reads a \<^typ>\<open>char\<close> as the code point
  of the same number, so a \<^typ>\<open>string\<close> is a Python string over the code points
  \<open>0 .. 255\<close>, one \<^typ>\<open>char\<close> per character, and offsets count characters.
  \<open>str.isspace\<close> and \<open>str.isdigit\<close> are given for that range as the Unicode database
  has them: white space is \<open>U+0009 .. U+000D\<close>, \<open>U+001C .. U+0020\<close>, \<open>U+0085\<close> and
  \<open>U+00A0\<close>; \<open>isdigit\<close> holds of the decimal digits \<open>0 .. 9\<close> and also of the
  superscript digits \<open>U+00B2\<close>, \<open>U+00B3\<close> and \<open>U+00B9\<close>.
\<close>

definition isspace :: "char \<Rightarrow> bool" where
  "isspace c =
     (let n = (of_char c :: nat)
      in (9 \<le> n \<and> n \<le> 13) \<or> (28 \<le> n \<and> n \<le> 32) \<or> n = 133 \<or> n = 160)"

definition isdigit :: "char \<Rightarrow> bool" where
  "isdigit c =
     (let n = (of_char c :: nat)
      in (48 \<le> n \<and> n \<le> 57) \<or> n = 178 \<or> n = 179 \<or> n = 185)"

text \<open>
  The characters \<open>int()\<close> and \<open>float()\<close> accept as digits are the decimal ones
  only, \<open>0 .. 9\<close> in this range.
\<close>

definition isdecimal :: "char \<Rightarrow> bool" where
  "isdecimal c = (let n = (of_char c :: nat) in 48 \<le> n \<and> n \<le> 57)"

definition digit_value :: "char \<Rightarrow> int" where
  "digit_value c = int (of_char c) - 48"

definition decimal_value :: "string \<Rightarrow> int" where
  "decimal_value s = foldl (\<lambda>a c. 10 * a + digit_value c) 0 s"

text \<open>
  A number is Python's \<open>int\<close> (unbounded) or a finite \<open>float\<close>. A float is a double;
  \<open>PyFloat q\<close> is the finite double whose value is exactly \<open>q\<close>.
\<close>

datatype number = PyInt int | PyFloat rat

text \<open>
  The value of a token is a number (\<open>NUMBER\<close>), the float \<open>inf\<close> (\<open>NUMBER\<close>, when the
  literal is beyond the range of a double), the operator's character as a string, or
  \<open>None\<close> (\<open>EOF\<close>).
\<close>

datatype token_value = NumberValue number | InfValue | StrValue string | NoneValue

text \<open>
  \<open>int(s)\<close> on the strings \<open>read_number\<close> passes it: characters with \<open>isdigit\<close>, no
  sign, blank or underscore. It raises \<open>ValueError\<close> (here \<open>None\<close>) on a character that
  is no decimal digit, and on a string of more digits than the interpreter's limit
  on the conversion of strings to integers, whose default is 4300 digits; leading zeros
  count.
\<close>

definition int_max_str_digits :: nat where
  "int_max_str_digits = 4300"

definition py_int :: "string \<Rightarrow> int option" where
  "py_int s =
     (if s \<noteq> [] \<and> list_all isdecimal s \<and> length s \<le> int_max_str_digits
      then Some (decimal_value s) else None)"

text \<open>
  \<open>float(s)\<close> returns the double nearest to the decimal fraction \<open>s\<close> writes, the even
  one of two that are as near, and \<open>inf\<close> when that is beyond the largest double.
  \<open>float_value n d\<close> is this float for the fraction \<open>n / d\<close>: with \<open>2 ^ e\<close> the
  largest power of two that is at most \<open>n / d\<close>, the doubles around \<open>n / d\<close> are the
  multiples of \<open>2 ^ u\<close>, where \<open>u\<close> is \<open>e - 52\<close> and at least \<open>-1074\<close>; the nearest one is
  \<open>m * 2 ^ u\<close>, and it is a double when it is below \<open>2 ^ 1024\<close>.
\<close>

function bit_length :: "nat \<Rightarrow> nat" where
  "bit_length n = (if n = 0 then 0 else Suc (bit_length (n div 2)))"
  by pat_completeness auto
termination
  by (relation "measure id") auto

declare bit_length.simps [simp del]

definition round_half_even :: "nat \<Rightarrow> nat \<Rightarrow> nat" where
  "round_half_even n d =
     (let q = n div d; r = n mod d
      in if 2 * r < d then q
         else if d < 2 * r then q + 1
         else if even q then q else q + 1)"

definition float_value :: "nat \<Rightarrow> nat \<Rightarrow> token_value" where
  "float_value n d =
     (if n = 0 then NumberValue (PyFloat 0)
      else
        let k = int (bit_length n) - int (bit_length d);
            e = (if d * 2 ^ nat k \<le> n * 2 ^ nat (- k) then k else k - 1);
            u = max (e - 52) (- 1074);
            m = round_half_even (n * 2 ^ nat (- u)) (d * 2 ^ nat u);
            v = (of_nat (m * 2 ^ nat u) / of_nat (2 ^ nat (- u)) :: rat)
        in if 2 ^ 1024 \<le> v then InfValue else NumberValue (PyFloat v))"

text \<open>
  \<open>float(s)\<close> on the strings \<open>read_number\<close> passes it: characters with \<open>isdigit\<close> and
  at least one full stop. It raises \<open>ValueError\<close> (here \<open>None\<close>) unless the string is
  decimal digits with one full stop among or behind them.
\<close>

definition py_float :: "string \<Rightarrow> token_value option" where
  "py_float s =
     (let a = takeWhile (\<lambda>c. c \<noteq> CHR ''.'') s;
          r = dropWhile (\<lambda>c. c \<noteq> CHR ''.'') s
      in case r of
           [] \<Rightarrow> (if a \<noteq> [] \<and> list_all isdecimal a
                  then Some (float_value (nat (decimal_value a)) 1) else None)
         | _ # b \<Rightarrow>
             (if (a \<noteq> [] \<or> b \<noteq> []) \<and> list_all isdecimal a \<and> list_all isdecimal b
              then Some (float_value (nat (decimal_value (a @ b))) (10 ^ length b))
              else None))"

section \<open>Tokens\<close>

datatype TokenType = NUMBER | PLUS | MINUS | MULTIPLY | DIVIDE | LPAREN | RPAREN | EOF

text \<open>The \<open>.value\<close> of a member of the enumeration: its name as a string.\<close>

fun TokenType_value :: "TokenType \<Rightarrow> string" where
  "TokenType_value NUMBER = ''NUMBER''"
| "TokenType_value PLUS = ''PLUS''"
| "TokenType_value MINUS = ''MINUS''"
| "TokenType_value MULTIPLY = ''MULTIPLY''"
| "TokenType_value DIVIDE = ''DIVIDE''"
| "TokenType_value LPAREN = ''LPAREN''"
| "TokenType_value RPAREN = ''RPAREN''"
| "TokenType_value EOF = ''EOF''"

datatype token = Token (tok_type: TokenType) (tok_value: token_value) (tok_position: nat)

section \<open>Errors\<close>

text \<open>
  Every \<open>raise\<close> of the source is a \<open>ValueError\<close>; the constructors keep what each
  message carries. \<open>ConversionError s\<close> is the \<open>ValueError\<close> that \<open>int(s)\<close> or
  \<open>float(s)\<close> raises inside \<open>read_number\<close>. \<open>AttributeError\<close> is what
  \<open>parse_factor\<close> raises when it reads \<open>.type\<close> of a current token that is \<open>None\<close>.
  \<open>RecursionError\<close> is what the interpreter raises at a call that would nest deeper
  than its recursion limit allows.
\<close>

datatype error =
    InvalidCharacter char nat
  | ConversionError string
  | ExpectedToken string string
  | UnexpectedToken token
  | AttributeError
  | RecursionError

section \<open>Lexer\<close>

text \<open>
  The lexer's state is the text and the offset. \<open>current_char\<close> is a field in the
  source that \<open>__init__\<close> and \<open>advance\<close> always set to \<open>text[position]\<close>, or to
  \<open>None\<close> when the offset is past the end; the model computes it from the two.
\<close>

record Lexer =
  lx_text :: string
  lx_position :: nat

definition Lexer_init :: "string \<Rightarrow> Lexer" where
  "Lexer_init s = \<lparr>lx_text = s, lx_position = 0\<rparr>"

definition current_char :: "Lexer \<Rightarrow> char option" where
  "current_char lx =
     (if lx_position lx < length (lx_text lx) then Some (lx_text lx ! lx_position lx) else None)"

definition lexer_advance :: "Lexer \<Rightarrow> Lexer" where
  "lexer_advance lx = lx\<lparr>lx_position := lx_position lx + 1\<rparr>"

function skip_whitespace :: "Lexer \<Rightarrow> Lexer" where
  "skip_whitespace lx =
     (case current_char lx of
        None \<Rightarrow> lx
      | Some c \<Rightarrow> if isspace c then skip_whitespace (lexer_advance lx) else lx)"
  by pat_completeness auto
termination
  by (relation "measure (\<lambda>lx. length (lx_text lx) - lx_position lx)")
     (auto simp: current_char_def lexer_advance_def split: if_splits)

declare skip_whitespace.simps [simp del]

text \<open>The loop of \<open>read_number\<close>, with the lexeme read so far.\<close>

function read_number_loop :: "Lexer \<Rightarrow> string \<Rightarrow> string \<times> Lexer" where
  "read_number_loop lx num_str =
     (case current_char lx of
        None \<Rightarrow> (num_str, lx)
      | Some c \<Rightarrow>
          if isdigit c \<or> c = CHR ''.''
          then read_number_loop (lexer_advance lx) (num_str @ [c])
          else (num_str, lx))"
  by pat_completeness auto
termination
  by (relation "measure (\<lambda>(lx, s). length (lx_text lx) - lx_position lx)")
     (auto simp: current_char_def lexer_advance_def split: if_splits)

declare read_number_loop.simps [simp del]

definition read_number :: "Lexer \<Rightarrow> error + (token \<times> Lexer)" where
  "read_number lx =
     (let start_pos = lx_position lx;
          (num_str, lx') = read_number_loop lx []
      in if CHR ''.'' \<in> set num_str
         then (case py_float num_str of
                 None \<Rightarrow> Inl (ConversionError num_str)
               | Some v \<Rightarrow> Inr (Token NUMBER v start_pos, lx'))
         else (case py_int num_str of
                 None \<Rightarrow> Inl (ConversionError num_str)
               | Some v \<Rightarrow> Inr (Token NUMBER (NumberValue (PyInt v)) start_pos, lx')))"

lemma skip_whitespace_text [simp]: "lx_text (skip_whitespace lx) = lx_text lx"
  by (induction lx rule: skip_whitespace.induct)
     (subst skip_whitespace.simps, simp add: lexer_advance_def split: option.splits)

lemma skip_whitespace_position: "lx_position lx \<le> lx_position (skip_whitespace lx)"
proof (induction lx rule: skip_whitespace.induct)
  case (1 lx)
  show ?case
  proof (cases "current_char lx")
    case None
    then show ?thesis by (subst skip_whitespace.simps) simp
  next
    case (Some c)
    show ?thesis
    proof (cases "isspace c")
      case True
      with Some 1 have "lx_position (lexer_advance lx) \<le> lx_position (skip_whitespace (lexer_advance lx))"
        by simp
      with Some True show ?thesis
        by (subst skip_whitespace.simps) (simp add: lexer_advance_def)
    next
      case False
      with Some show ?thesis by (subst skip_whitespace.simps) simp
    qed
  qed
qed

lemma skip_whitespace_progress:
  assumes "current_char lx = Some c" and "isspace c"
  shows "lx_position lx < lx_position (skip_whitespace lx)"
proof -
  have "skip_whitespace lx = skip_whitespace (lexer_advance lx)"
    using assms by (subst skip_whitespace.simps) simp
  moreover have "lx_position (lexer_advance lx) \<le> lx_position (skip_whitespace (lexer_advance lx))"
    by (rule skip_whitespace_position)
  ultimately show ?thesis by (simp add: lexer_advance_def)
qed

function get_next_token :: "Lexer \<Rightarrow> error + (token \<times> Lexer)" where
  "get_next_token lx =
     (case current_char lx of
        None \<Rightarrow> Inr (Token EOF NoneValue (lx_position lx), lx)
      | Some c \<Rightarrow>
          if isspace c then get_next_token (skip_whitespace lx)
          else if isdigit c then read_number lx
          else if c = CHR ''+'' then Inr (Token PLUS (StrValue ''+'') (lx_position lx), lexer_advance lx)
          else if c = CHR ''-'' then Inr (Token MINUS (StrValue ''-'') (lx_position lx), lexer_advance lx)
          else if c = CHR ''*'' then Inr (Token MULTIPLY (StrValue ''*'') (lx_position lx), lexer_advance lx)
          else if c = CHR ''/'' then Inr (Token DIVIDE (StrValue ''/'') (lx_position lx), lexer_advance lx)
          else if c = CHR ''('' then Inr (Token LPAREN (StrValue ''('') (lx_position lx), lexer_advance lx)
          else if c = CHR '')'' then Inr (Token RPAREN (StrValue '')'') (lx_position lx), lexer_advance lx)
          else Inl (InvalidCharacter c (lx_position lx)))"
  by pat_completeness auto
termination
proof (relation "measure (\<lambda>lx. length (lx_text lx) - lx_position lx)")
  show "wf (measure (\<lambda>lx. length (lx_text lx) - lx_position lx))" by simp
next
  fix lx c
  assume c: "current_char lx = Some c" and sp: "isspace c"
  from c have "lx_position lx < length (lx_text lx)"
    by (simp add: current_char_def split: if_splits)
  moreover from c sp have "lx_position lx < lx_position (skip_whitespace lx)"
    by (rule skip_whitespace_progress)
  ultimately show "(skip_whitespace lx, lx) \<in> measure (\<lambda>lx. length (lx_text lx) - lx_position lx)"
    by simp
qed

declare get_next_token.simps [simp del]

text \<open>The part of the text from the offset on: what the lexer has not read yet.\<close>

definition rest :: "Lexer \<Rightarrow> string" where
  "rest lx = drop (lx_position lx) (lx_text lx)"

lemma current_char_rest:
  "current_char lx = (case rest lx of [] \<Rightarrow> None | c # _ \<Rightarrow> Some c)"
  by (auto simp: current_char_def rest_def hd_drop_conv_nth split: list.splits
      dest: arg_cong [where f = hd])

lemma rest_advance: "rest lx = c # cs \<Longrightarrow> rest (lexer_advance lx) = cs"
  by (simp add: rest_def lexer_advance_def drop_Suc)
     (metis drop_Suc list.sel(3) tl_drop)

lemma read_number_loop_eq:
  "read_number_loop lx s =
     (s @ takeWhile (\<lambda>c. isdigit c \<or> c = CHR ''.'') (rest lx),
      lx\<lparr>lx_position := lx_position lx
             + length (takeWhile (\<lambda>c. isdigit c \<or> c = CHR ''.'') (rest lx))\<rparr>)"
proof (induction lx s rule: read_number_loop.induct)
  case (1 lx s)
  show ?case
  proof (cases "rest lx")
    case Nil
    then show ?thesis
      by (subst read_number_loop.simps) (simp add: current_char_rest)
  next
    case (Cons c cs)
    then have cc: "current_char lx = Some c" by (simp add: current_char_rest)
    show ?thesis
    proof (cases "isdigit c \<or> c = CHR ''.''")
      case True
      from Cons have r: "rest (lexer_advance lx) = cs" by (rule rest_advance)
      from 1 [OF cc True] r
      have "read_number_loop (lexer_advance lx) (s @ [c]) =
              ((s @ [c]) @ takeWhile (\<lambda>c. isdigit c \<or> c = CHR ''.'') cs,
               (lexer_advance lx)\<lparr>lx_position := lx_position (lexer_advance lx)
                 + length (takeWhile (\<lambda>c. isdigit c \<or> c = CHR ''.'') cs)\<rparr>)"
        by simp
      with cc True Cons show ?thesis
        by (subst read_number_loop.simps) (auto simp add: lexer_advance_def)
    next
      case False
      with cc Cons show ?thesis
        by (subst read_number_loop.simps) auto
    qed
  qed
qed

lemma skip_whitespace_eq:
  "skip_whitespace lx =
     lx\<lparr>lx_position := lx_position lx + length (takeWhile isspace (rest lx))\<rparr>"
proof (induction lx rule: skip_whitespace.induct)
  case (1 lx)
  show ?case
  proof (cases "rest lx")
    case Nil
    then show ?thesis
      by (subst skip_whitespace.simps) (simp add: current_char_rest)
  next
    case (Cons c cs)
    then have cc: "current_char lx = Some c" by (simp add: current_char_rest)
    show ?thesis
    proof (cases "isspace c")
      case True
      from Cons have r: "rest (lexer_advance lx) = cs" by (rule rest_advance)
      from 1 [OF cc True] r
      have "skip_whitespace (lexer_advance lx) =
              (lexer_advance lx)\<lparr>lx_position := lx_position (lexer_advance lx)
                 + length (takeWhile isspace cs)\<rparr>"
        by simp
      with cc True Cons show ?thesis
        by (subst skip_whitespace.simps) (auto simp add: lexer_advance_def)
    next
      case False
      with cc Cons show ?thesis
        by (subst skip_whitespace.simps) auto
    qed
  qed
qed


lemma read_number_text:
  "read_number lx = Inr (t, lx') \<Longrightarrow> lx_text lx' = lx_text lx"
  by (auto simp: read_number_def read_number_loop_eq Let_def split: if_splits option.splits)

lemma read_number_progress:
  assumes "read_number lx = Inr (t, lx')" and "current_char lx = Some c" and "isdigit c"
  shows "lx_position lx < lx_position lx'"
proof -
  from assms(2) obtain cs where "rest lx = c # cs"
    by (auto simp: current_char_rest split: list.splits)
  with assms(1,3) show ?thesis
    by (auto simp: read_number_def read_number_loop_eq Let_def split: if_splits option.splits)
qed

lemma read_number_type:
  "read_number lx = Inr (t, lx') \<Longrightarrow> tok_type t = NUMBER"
  by (auto simp: read_number_def read_number_loop_eq Let_def split: if_splits option.splits)

lemma get_next_token_text:
  "get_next_token lx = Inr (t, lx') \<Longrightarrow> lx_text lx' = lx_text lx"
proof (induction lx rule: get_next_token.induct)
  case (1 lx)
  show ?case
  proof (cases "current_char lx")
    case None
    with 1(2) show ?thesis by (subst (asm) get_next_token.simps) auto
  next
    case (Some c)
    show ?thesis
    proof (cases "isspace c")
      case True
      with Some 1(2) have "get_next_token (skip_whitespace lx) = Inr (t, lx')"
        by (subst (asm) get_next_token.simps) simp
      with 1(1) [OF Some True] show ?thesis by simp
    next
      case False
      with Some 1(2) show ?thesis
        by (subst (asm) get_next_token.simps)
           (auto simp: lexer_advance_def split: if_splits dest: read_number_text)
    qed
  qed
qed

lemma get_next_token_progress:
  "get_next_token lx = Inr (t, lx') \<Longrightarrow> tok_type t \<noteq> EOF \<Longrightarrow>
     lx_position lx < lx_position lx' \<and> lx_position lx < length (lx_text lx)"
proof (induction lx rule: get_next_token.induct)
  case (1 lx)
  show ?case
  proof (cases "current_char lx")
    case None
    with 1(2,3) show ?thesis by (subst (asm) get_next_token.simps) auto
  next
    case (Some c)
    then have lt: "lx_position lx < length (lx_text lx)"
      by (simp add: current_char_def split: if_splits)
    show ?thesis
    proof (cases "isspace c")
      case True
      with Some 1(2) have "get_next_token (skip_whitespace lx) = Inr (t, lx')"
        by (subst (asm) get_next_token.simps) simp
      with 1(1) [OF Some True] 1(3)
      have "lx_position (skip_whitespace lx) < lx_position lx'" by simp
      with skip_whitespace_position [of lx] lt show ?thesis by simp
    next
      case False
      with Some 1(2) lt show ?thesis
        by (subst (asm) get_next_token.simps)
           (auto simp: lexer_advance_def split: if_splits dest: read_number_progress)
    qed
  qed
qed

function tokenize_loop :: "Lexer \<Rightarrow> token list \<Rightarrow> error + token list" where
  "tokenize_loop lx tokens =
     (case get_next_token lx of
        Inl e \<Rightarrow> Inl e
      | Inr (token, lx') \<Rightarrow>
          if tok_type token = EOF then Inr (tokens @ [token])
          else tokenize_loop lx' (tokens @ [token]))"
  by pat_completeness auto
termination
proof (relation "measure (\<lambda>(lx, ts). length (lx_text lx) - lx_position lx)")
  show "wf (measure (\<lambda>(lx, ts). length (lx_text lx) - lx_position lx))" by simp
next
  fix lx :: Lexer and tokens :: "token list" and x token lx'
  assume "get_next_token lx = Inr x" and "(token, lx') = x" and "tok_type token \<noteq> EOF"
  then have g: "get_next_token lx = Inr (token, lx')" and ne: "tok_type token \<noteq> EOF"
    by simp_all
  from get_next_token_progress [OF g ne] get_next_token_text [OF g]
  show "((lx', tokens @ [token]), (lx, tokens))
          \<in> measure (\<lambda>(lx, ts). length (lx_text lx) - lx_position lx)"
    by (auto intro: diff_less_mono2)
qed

declare tokenize_loop.simps [simp del]

definition tokenize :: "Lexer \<Rightarrow> error + token list" where
  "tokenize lx = tokenize_loop lx []"

section \<open>Abstract syntax\<close>

text \<open>
  Modelled from the spec: the classes \<open>Num\<close>, \<open>Add\<close>, \<open>Minus\<close>, \<open>Multi\<close>,
  \<open>Div\<close> and \<open>Par\<close> that the parser imports from \<open>calculator\<close>, a module that is
  not among the sources. The spec gives the tree as a tagged variant: a literal with its
  value, four binary nodes with two children each, and a parenthesis node with one.
  \<open>Num\<close> holds the value of the \<open>NUMBER\<close> token as the parser passes it on.
\<close>

datatype Expr =
    Num token_value
  | Add Expr Expr
  | Minus Expr Expr
  | Multi Expr Expr
  | Div Expr Expr
  | Par Expr

section \<open>Parser\<close>

text \<open>
  The parser's state is the token list and the index of the current token;
  \<open>current_token\<close> is \<open>tokens[position]\<close>, or \<open>None\<close> past the end, as
  \<open>__init__\<close> and \<open>advance\<close> set it. Each \<open>while\<close> loop of the source is a function
  of its own, with the running left operand as an argument. The productions call each
  other as deep as the input nests; the limit of the interpreter on the depth of calls is
  not modelled.
\<close>

record Parser =
  ps_tokens :: "token list"
  ps_position :: nat

definition Parser_init :: "token list \<Rightarrow> Parser" where
  "Parser_init ts = \<lparr>ps_tokens = ts, ps_position = 0\<rparr>"

definition current_token :: "Parser \<Rightarrow> token option" where
  "current_token ps =
     (if ps_position ps < length (ps_tokens ps) then Some (ps_tokens ps ! ps_position ps)
      else None)"

definition parser_advance :: "Parser \<Rightarrow> Parser" where
  "parser_advance ps = ps\<lparr>ps_position := ps_position ps + 1\<rparr>"

definition expect :: "Parser \<Rightarrow> TokenType \<Rightarrow> error + (token \<times> Parser)" where
  "expect ps token_type =
     (case current_token ps of
        Some token \<Rightarrow>
          if tok_type token = token_type then Inr (token, parser_advance ps)
          else Inl (ExpectedToken (TokenType_value token_type)
                                  (TokenType_value (tok_type token)))
      | None \<Rightarrow> Inl (ExpectedToken (TokenType_value token_type) ''EOF''))"


text \<open>The number of tokens from the current one on.\<close>

definition remaining :: "Parser \<Rightarrow> nat" where
  "remaining ps = length (ps_tokens ps) - ps_position ps"

function parse_expression :: "Parser \<Rightarrow> error + (Expr \<times> Parser)"
  and parse_expression_loop :: "Expr \<Rightarrow> Parser \<Rightarrow> error + (Expr \<times> Parser)"
  and parse_term :: "Parser \<Rightarrow> error + (Expr \<times> Parser)"
  and parse_term_loop :: "Expr \<Rightarrow> Parser \<Rightarrow> error + (Expr \<times> Parser)"
  and parse_factor :: "Parser \<Rightarrow> error + (Expr \<times> Parser)"
where
  "parse_expression ps =
     (case parse_term ps of
        Inl e \<Rightarrow> Inl e
      | Inr (left, ps1) \<Rightarrow> parse_expression_loop left ps1)"
| "parse_expression_loop left ps =
     (case current_token ps of
        None \<Rightarrow> Inr (left, ps)
      | Some op \<Rightarrow>
          if tok_type op = PLUS \<or> tok_type op = MINUS
          then (case parse_term (parser_advance ps) of
                  Inl e \<Rightarrow> Inl e
                | Inr (right, ps2) \<Rightarrow>
                    parse_expression_loop
                      (if tok_type op = PLUS then Add left right
                       else if tok_type op = MINUS then Minus left right
                       else left) ps2)
          else Inr (left, ps))"
| "parse_term ps =
     (case parse_factor ps of
        Inl e \<Rightarrow> Inl e
      | Inr (left, ps1) \<Rightarrow> parse_term_loop left ps1)"
| "parse_term_loop left ps =
     (case current_token ps of
        None \<Rightarrow> Inr (left, ps)
      | Some op \<Rightarrow>
          if tok_type op = MULTIPLY \<or> tok_type op = DIVIDE
          then (case parse_factor (parser_advance ps) of
                  Inl e \<Rightarrow> Inl e
                | Inr (right, ps2) \<Rightarrow>
                    parse_term_loop
                      (if tok_type op = MULTIPLY then Multi left right
                       else if tok_type op = DIVIDE then Div left right
                       else left) ps2)
          else Inr (left, ps))"
| "parse_factor ps =
     (case current_token ps of
        None \<Rightarrow> Inl AttributeError
      | Some tok \<Rightarrow>
          if tok_type tok = NUMBER then Inr (Num (tok_value tok), parser_advance ps)
          else if tok_type tok = LPAREN
          then (case parse_expression (parser_advance ps) of
                  Inl e \<Rightarrow> Inl e
                | Inr (expr, ps1) \<Rightarrow>
                    (case expect ps1 RPAREN of
                       Inl e \<Rightarrow> Inl e
                     | Inr (_, ps2) \<Rightarrow> Inr (Par expr, ps2)))
          else Inl (UnexpectedToken tok))"
  by pat_completeness auto


definition advanced :: "Parser \<Rightarrow> Parser \<Rightarrow> bool" where
  "advanced ps ps' \<longleftrightarrow> ps_tokens ps' = ps_tokens ps \<and> ps_position ps \<le> ps_position ps'"

lemma advanced_refl [simp]: "advanced ps ps"
  by (simp add: advanced_def)

lemma advanced_trans: "advanced a b \<Longrightarrow> advanced b c \<Longrightarrow> advanced a c"
  by (simp add: advanced_def)

lemma advanced_advance: "advanced (parser_advance a) b \<Longrightarrow> advanced a b"
  by (simp add: advanced_def parser_advance_def)

lemma expect_advanced: "expect ps k = Inr (t, ps') \<Longrightarrow> advanced ps ps'"
  by (auto simp: expect_def advanced_def parser_advance_def split: option.splits if_splits)

lemma parse_advanced_dom:
  "parse_expression_parse_expression_loop_parse_term_parse_term_loop_parse_factor_dom (Inl (Inl ps))
     \<Longrightarrow> (\<forall>e ps'. parse_expression ps = Inr (e, ps') \<longrightarrow> advanced ps ps')"
  "parse_expression_parse_expression_loop_parse_term_parse_term_loop_parse_factor_dom (Inl (Inr (left, ps)))
     \<Longrightarrow> (\<forall>e ps'. parse_expression_loop left ps = Inr (e, ps') \<longrightarrow> advanced ps ps')"
  "parse_expression_parse_expression_loop_parse_term_parse_term_loop_parse_factor_dom (Inr (Inl ps))
     \<Longrightarrow> (\<forall>e ps'. parse_term ps = Inr (e, ps') \<longrightarrow> advanced ps ps')"
  "parse_expression_parse_expression_loop_parse_term_parse_term_loop_parse_factor_dom (Inr (Inr (Inl (left, ps))))
     \<Longrightarrow> (\<forall>e ps'. parse_term_loop left ps = Inr (e, ps') \<longrightarrow> advanced ps ps')"
  "parse_expression_parse_expression_loop_parse_term_parse_term_loop_parse_factor_dom (Inr (Inr (Inr ps)))
     \<Longrightarrow> (\<forall>e ps'. parse_factor ps = Inr (e, ps') \<longrightarrow> advanced ps ps')"
proof (induct rule: parse_expression_parse_expression_loop_parse_term_parse_term_loop_parse_factor.pinduct)
  case (1 ps)
  then show ?case
    by (auto simp: parse_expression.psimps split: sum.splits prod.splits intro: advanced_trans)
next
  case (2 left ps)
  show ?case
  proof (intro allI impI)
    fix e ps'
    assume r: "parse_expression_loop left ps = Inr (e, ps')"
    show "advanced ps ps'"
    proof (cases "current_token ps")
      case None
      with r 2(1) show ?thesis by (simp add: parse_expression_loop.psimps)
    next
      case (Some op)
      show ?thesis
      proof (cases "tok_type op = PLUS \<or> tok_type op = MINUS")
        case False
        with Some r 2(1) show ?thesis by (simp add: parse_expression_loop.psimps)
      next
        case True
        with Some r 2(1) obtain right ps2 where
          pt: "parse_term (parser_advance ps) = Inr (right, ps2)" and
          l: "parse_expression_loop
                (if tok_type op = PLUS then Add left right
                 else if tok_type op = MINUS then Minus left right else left) ps2 = Inr (e, ps')"
          by (auto simp: parse_expression_loop.psimps split: sum.splits)
        from 2(2) [OF Some True] pt have "advanced (parser_advance ps) ps2" by simp
        moreover from 2(3) [OF Some True pt refl] l have "advanced ps2 ps'" by simp
        ultimately show ?thesis by (blast intro: advanced_trans advanced_advance)
      qed
    qed
  qed
next
  case (3 ps)
  then show ?case
    by (auto simp: parse_term.psimps split: sum.splits prod.splits intro: advanced_trans)
next
  case (4 left ps)
  show ?case
  proof (intro allI impI)
    fix e ps'
    assume r: "parse_term_loop left ps = Inr (e, ps')"
    show "advanced ps ps'"
    proof (cases "current_token ps")
      case None
      with r 4(1) show ?thesis by (simp add: parse_term_loop.psimps)
    next
      case (Some op)
      show ?thesis
      proof (cases "tok_type op = MULTIPLY \<or> tok_type op = DIVIDE")
        case False
        with Some r 4(1) show ?thesis by (simp add: parse_term_loop.psimps)
      next
        case True
        with Some r 4(1) obtain right ps2 where
          pf: "parse_factor (parser_advance ps) = Inr (right, ps2)" and
          l: "parse_term_loop
                (if tok_type op = MULTIPLY then Multi left right
                 else if tok_type op = DIVIDE then Div left right else left) ps2 = Inr (e, ps')"
          by (auto simp: parse_term_loop.psimps split: sum.splits)
        from 4(2) [OF Some True] pf have "advanced (parser_advance ps) ps2" by simp
        moreover from 4(3) [OF Some True pf refl] l have "advanced ps2 ps'" by simp
        ultimately show ?thesis by (blast intro: advanced_trans advanced_advance)
      qed
    qed
  qed
next
  case (5 ps)
  show ?case
  proof (intro allI impI)
    fix e ps'
    assume r: "parse_factor ps = Inr (e, ps')"
    show "advanced ps ps'"
    proof (cases "current_token ps")
      case None
      with r 5(1) show ?thesis by (simp add: parse_factor.psimps)
    next
      case (Some tok)
      show ?thesis
      proof (cases "tok_type tok = NUMBER")
        case True
        with Some r 5(1) have "ps' = parser_advance ps" by (simp add: parse_factor.psimps)
        then show ?thesis by (simp add: advanced_def parser_advance_def)
      next
        case False
        with Some r 5(1) have lp: "tok_type tok = LPAREN"
          by (auto simp: parse_factor.psimps split: if_splits)
        with Some False r 5(1) obtain expr ps1 t where
          pe: "parse_expression (parser_advance ps) = Inr (expr, ps1)" and
          ex: "expect ps1 RPAREN = Inr (t, ps')"
          by (auto simp: parse_factor.psimps split: sum.splits)
        from 5(2) [OF Some False lp] pe have "advanced (parser_advance ps) ps1" by simp
        moreover from ex have "advanced ps1 ps'" by (rule expect_advanced)
        ultimately show ?thesis by (blast intro: advanced_trans advanced_advance)
      qed
    qed
  qed
qed

lemma remaining_advance: "current_token ps = Some t \<Longrightarrow> remaining (parser_advance ps) < remaining ps"
  by (auto simp: remaining_def current_token_def parser_advance_def split: if_splits)

lemma remaining_advanced: "advanced ps ps' \<Longrightarrow> remaining ps' \<le> remaining ps"
  by (auto simp: remaining_def advanced_def)

termination parse_expression
proof (relation "inv_image (measure id <*lex*> measure id) (\<lambda>x. case x of
      Inl (Inl ps) \<Rightarrow> (remaining ps, 4::nat)
    | Inl (Inr (l, ps)) \<Rightarrow> (remaining ps, 3)
    | Inr (Inl ps) \<Rightarrow> (remaining ps, 2)
    | Inr (Inr (Inl (l, ps))) \<Rightarrow> (remaining ps, 1)
    | Inr (Inr (Inr ps)) \<Rightarrow> (remaining ps, 0))", goal_cases)
  case 1
  show ?case by (intro wf_inv_image wf_lex_prod wf_measure)
next
  case (2 ps)
  show ?case by simp
next
  case (3 ps b x y)
  then have "advanced ps y" using parse_advanced_dom(3) [of ps] by auto
  then have "remaining y \<le> remaining ps" by (rule remaining_advanced)
  with 3 show ?case by auto
next
  case (4 left ps x2)
  then show ?case using remaining_advance [of ps x2] by simp
next
  case (5 left ps x2 b x y)
  then have "advanced (parser_advance ps) y"
    using parse_advanced_dom(3) [of "parser_advance ps"] by auto
  then have "remaining y \<le> remaining (parser_advance ps)" by (rule remaining_advanced)
  with 5 remaining_advance [of ps x2] show ?case by auto
next
  case (6 ps)
  show ?case by simp
next
  case (7 ps b x y)
  then have "advanced ps y" using parse_advanced_dom(5) [of ps] by auto
  then have "remaining y \<le> remaining ps" by (rule remaining_advanced)
  with 7 show ?case by auto
next
  case (8 left ps x2)
  then show ?case using remaining_advance [of ps x2] by simp
next
  case (9 left ps x2 b x y)
  then have "advanced (parser_advance ps) y"
    using parse_advanced_dom(5) [of "parser_advance ps"] by auto
  then have "remaining y \<le> remaining (parser_advance ps)" by (rule remaining_advanced)
  with 9 remaining_advance [of ps x2] show ?case by auto
next
  case (10 ps x2)
  then show ?case using remaining_advance [of ps x2] by simp
qed

declare parse_expression.simps [simp del] parse_expression_loop.simps [simp del]
  parse_term.simps [simp del] parse_term_loop.simps [simp del] parse_factor.simps [simp del]

definition parse :: "Parser \<Rightarrow> error + Expr" where
  "parse ps =
     (case parse_expression ps of
        Inl e \<Rightarrow> Inl e
      | Inr (expr, ps') \<Rightarrow>
          (case current_token ps' of
             Some tok \<Rightarrow> if tok_type tok \<noteq> EOF then Inl (UnexpectedToken tok) else Inr expr
           | None \<Rightarrow> Inr expr))"

definition parse_expression_from_string :: "string \<Rightarrow> error + Expr" where
  "parse_expression_from_string expression =
     (case tokenize (Lexer_init expression) of
        Inl e \<Rightarrow> Inl e
      | Inr tokens \<Rightarrow> parse (Parser_init tokens))"

section \<open>Evaluation\<close>

text \<open>
  Modelled from the spec: the evaluator \<open>eval_value\<close> of \<open>calculator.py\<close>, which is
  not among the sources. As the spec has it, a literal yields its number, a parenthesis
  node the value of its child, and a binary node evaluates both children and applies its
  operator; a result is an exact integer when both operands are, and a decimal otherwise;
  a division whose right operand is exactly zero fails with the division-by-zero
  condition. The quotient of two exact integers is left to the implementation by the
  spec, so it is the parameter \<open>idiv\<close>, applied to a divisor that is not zero. The left
  child is evaluated first. A literal that holds no number, which the parser never builds
  from the tokens of the lexer, has no value: evaluating it fails with \<open>NotANumber\<close>.
\<close>

datatype eval_error = DivisionByZero | NotANumber token_value

fun to_rat :: "number \<Rightarrow> rat" where
  "to_rat (PyInt i) = of_int i"
| "to_rat (PyFloat q) = q"

fun num_add :: "number \<Rightarrow> number \<Rightarrow> number" where
  "num_add (PyInt a) (PyInt b) = PyInt (a + b)"
| "num_add a b = PyFloat (to_rat a + to_rat b)"

fun num_sub :: "number \<Rightarrow> number \<Rightarrow> number" where
  "num_sub (PyInt a) (PyInt b) = PyInt (a - b)"
| "num_sub a b = PyFloat (to_rat a - to_rat b)"

fun num_mul :: "number \<Rightarrow> number \<Rightarrow> number" where
  "num_mul (PyInt a) (PyInt b) = PyInt (a * b)"
| "num_mul a b = PyFloat (to_rat a * to_rat b)"

fun num_div :: "(int \<Rightarrow> int \<Rightarrow> number) \<Rightarrow> number \<Rightarrow> number \<Rightarrow> eval_error + number" where
  "num_div idiv a b =
     (if to_rat b = 0 then Inl DivisionByZero
      else case (a, b) of
             (PyInt x, PyInt y) \<Rightarrow> Inr (idiv x y)
           | _ \<Rightarrow> Inr (PyFloat (to_rat a / to_rat b)))"

fun evaluate :: "(int \<Rightarrow> int \<Rightarrow> number) \<Rightarrow> Expr \<Rightarrow> eval_error + number" where
  "evaluate idiv (Num v) = (case v of NumberValue n \<Rightarrow> Inr n | _ \<Rightarrow> Inl (NotANumber v))"
| "evaluate idiv (Par e) = evaluate idiv e"
| "evaluate idiv (Add l r) =
     (case evaluate idiv l of Inl err \<Rightarrow> Inl err | Inr a \<Rightarrow>
        (case evaluate idiv r of Inl err \<Rightarrow> Inl err | Inr b \<Rightarrow> Inr (num_add a b)))"
| "evaluate idiv (Minus l r) =
     (case evaluate idiv l of Inl err \<Rightarrow> Inl err | Inr a \<Rightarrow>
        (case evaluate idiv r of Inl err \<Rightarrow> Inl err | Inr b \<Rightarrow> Inr (num_sub a b)))"
| "evaluate idiv (Multi l r) =
     (case evaluate idiv l of Inl err \<Rightarrow> Inl err | Inr a \<Rightarrow>
        (case evaluate idiv r of Inl err \<Rightarrow> Inl err | Inr b \<Rightarrow> Inr (num_mul a b)))"
| "evaluate idiv (Div l r) =
     (case evaluate idiv l of Inl err \<Rightarrow> Inl err | Inr a \<Rightarrow>
        (case evaluate idiv r of Inl err \<Rightarrow> Inl err | Inr b \<Rightarrow> num_div idiv a b))"

section \<open>Reading a tree back\<close>

text \<open>
  What the parser looks at in a token: its kind, and the value when it is a number. The
  in-order reading of a tree lists these for the tokens the tree was built from.
\<close>

datatype symbol = Number token_value | Kind TokenType

definition symbol_of :: "token \<Rightarrow> symbol" where
  "symbol_of t = (if tok_type t = NUMBER then Number (tok_value t) else Kind (tok_type t))"

fun inorder :: "Expr \<Rightarrow> symbol list" where
  "inorder (Num v) = [Number v]"
| "inorder (Add l r) = inorder l @ Kind PLUS # inorder r"
| "inorder (Minus l r) = inorder l @ Kind MINUS # inorder r"
| "inorder (Multi l r) = inorder l @ Kind MULTIPLY # inorder r"
| "inorder (Div l r) = inorder l @ Kind DIVIDE # inorder r"
| "inorder (Par e) = Kind LPAREN # inorder e @ [Kind RPAREN]"

text \<open>The symbols of the tokens between two states of the parser.\<close>

definition consumed :: "Parser \<Rightarrow> Parser \<Rightarrow> symbol list" where
  "consumed ps ps' =
     map symbol_of (take (ps_position ps' - ps_position ps) (drop (ps_position ps) (ps_tokens ps)))"

fun is_additive :: "Expr \<Rightarrow> bool" where
  "is_additive (Add l r) = True"
| "is_additive (Minus l r) = True"
| "is_additive e = False"

fun is_multiplicative :: "Expr \<Rightarrow> bool" where
  "is_multiplicative (Multi l r) = True"
| "is_multiplicative (Div l r) = True"
| "is_multiplicative e = False"

text \<open>
  \<open>binds_tighter e\<close>: no operand of a \<open>Multi\<close> or \<open>Div\<close> node of \<open>e\<close> is an \<open>Add\<close> or
  \<open>Minus\<close> node; a sum or difference gets under a product or quotient only inside a
  \<open>Par\<close> node.
\<close>

fun binds_tighter :: "Expr \<Rightarrow> bool" where
  "binds_tighter (Num v) = True"
| "binds_tighter (Add l r) = (binds_tighter l \<and> binds_tighter r)"
| "binds_tighter (Minus l r) = (binds_tighter l \<and> binds_tighter r)"
| "binds_tighter (Multi l r) =
     (\<not> is_additive l \<and> \<not> is_additive r \<and> binds_tighter l \<and> binds_tighter r)"
| "binds_tighter (Div l r) =
     (\<not> is_additive l \<and> \<not> is_additive r \<and> binds_tighter l \<and> binds_tighter r)"
| "binds_tighter (Par e) = binds_tighter e"

text \<open>
  \<open>groups_left e\<close>: the right operand of an \<open>Add\<close> or \<open>Minus\<close> node of \<open>e\<close> is never an
  \<open>Add\<close> or \<open>Minus\<close> node, and the right operand of a \<open>Multi\<close> or \<open>Div\<close> node never a
  \<open>Multi\<close> or \<open>Div\<close> node: a chain of operators of one level nests in the left operand.
\<close>

fun groups_left :: "Expr \<Rightarrow> bool" where
  "groups_left (Num v) = True"
| "groups_left (Add l r) = (\<not> is_additive r \<and> groups_left l \<and> groups_left r)"
| "groups_left (Minus l r) = (\<not> is_additive r \<and> groups_left l \<and> groups_left r)"
| "groups_left (Multi l r) = (\<not> is_multiplicative r \<and> groups_left l \<and> groups_left r)"
| "groups_left (Div l r) = (\<not> is_multiplicative r \<and> groups_left l \<and> groups_left r)"
| "groups_left (Par e) = groups_left e"

section \<open>What a successful call of each production did\<close>


lemma parse_expression_InrE:
  assumes "parse_expression ps = Inr (e, ps')"
  obtains l ps1 where "parse_term ps = Inr (l, ps1)" and "parse_expression_loop l ps1 = Inr (e, ps')"
  using assms by (subst (asm) parse_expression.simps) (auto split: sum.splits)

lemma parse_term_InrE:
  assumes "parse_term ps = Inr (e, ps')"
  obtains l ps1 where "parse_factor ps = Inr (l, ps1)" and "parse_term_loop l ps1 = Inr (e, ps')"
  using assms by (subst (asm) parse_term.simps) (auto split: sum.splits)

lemma parse_expression_loop_InrE:
  assumes "parse_expression_loop left ps = Inr (e, ps')"
  obtains (stop) "e = left" and "ps' = ps"
      and "\<And>op. current_token ps = Some op \<Longrightarrow> tok_type op \<noteq> PLUS \<and> tok_type op \<noteq> MINUS"
    | (step) op right ps2 where "current_token ps = Some op"
      and "tok_type op = PLUS \<or> tok_type op = MINUS"
      and "parse_term (parser_advance ps) = Inr (right, ps2)"
      and "parse_expression_loop
             (if tok_type op = PLUS then Add left right
              else if tok_type op = MINUS then Minus left right else left) ps2 = Inr (e, ps')"
  using assms
  by (subst (asm) parse_expression_loop.simps) (auto split: option.splits if_splits sum.splits)

lemma parse_term_loop_InrE:
  assumes "parse_term_loop left ps = Inr (e, ps')"
  obtains (stop) "e = left" and "ps' = ps"
      and "\<And>op. current_token ps = Some op \<Longrightarrow> tok_type op \<noteq> MULTIPLY \<and> tok_type op \<noteq> DIVIDE"
    | (step) op right ps2 where "current_token ps = Some op"
      and "tok_type op = MULTIPLY \<or> tok_type op = DIVIDE"
      and "parse_factor (parser_advance ps) = Inr (right, ps2)"
      and "parse_term_loop
             (if tok_type op = MULTIPLY then Multi left right
              else if tok_type op = DIVIDE then Div left right else left) ps2 = Inr (e, ps')"
  using assms
  by (subst (asm) parse_term_loop.simps) (auto split: option.splits if_splits sum.splits)

lemma parse_factor_InrE:
  assumes "parse_factor ps = Inr (e, ps')"
  obtains (number) tok where "current_token ps = Some tok" and "tok_type tok = NUMBER"
      and "e = Num (tok_value tok)" and "ps' = parser_advance ps"
    | (paren) tok expr ps1 t where "current_token ps = Some tok" and "tok_type tok \<noteq> NUMBER"
      and "tok_type tok = LPAREN"
      and "parse_expression (parser_advance ps) = Inr (expr, ps1)"
      and "expect ps1 RPAREN = Inr (t, ps')" and "e = Par expr"
  using assms
  by (subst (asm) parse_factor.simps) (auto split: option.splits if_splits sum.splits)


lemma expect_InrE:
  assumes "expect ps k = Inr (t, ps')"
  obtains "current_token ps = Some t" and "tok_type t = k" and "ps' = parser_advance ps"
  using assms by (auto simp: expect_def split: option.splits if_splits)

lemma advanced_step [simp]: "advanced ps (parser_advance ps)"
  by (simp add: advanced_def parser_advance_def)

lemma consumed_refl [simp]: "consumed ps ps = []"
  by (simp add: consumed_def)

lemma consumed_advance:
  "current_token ps = Some tok \<Longrightarrow> consumed ps (parser_advance ps) = [symbol_of tok]"
  by (auto simp: consumed_def current_token_def parser_advance_def take_Suc_conv_app_nth
      hd_drop_conv_nth take_Suc split: if_splits)

lemma consumed_trans:
  assumes "advanced a b" and "advanced b c"
  shows "consumed a c = consumed a b @ consumed b c"
proof -
  let ?i = "ps_position a" and ?j = "ps_position b" and ?k = "ps_position c"
  from assms have ij: "?i \<le> ?j" and jk: "?j \<le> ?k" and tb: "ps_tokens b = ps_tokens a"
    by (simp_all add: advanced_def)
  have "?k - ?i = (?j - ?i) + (?k - ?j)" using ij jk by simp
  then have "take (?k - ?i) (drop ?i (ps_tokens a)) =
      take (?j - ?i) (drop ?i (ps_tokens a)) @ take (?k - ?j) (drop (?j - ?i) (drop ?i (ps_tokens a)))"
    by (simp only: take_add)
  moreover have "drop (?j - ?i) (drop ?i (ps_tokens a)) = drop ?j (ps_tokens a)"
    using ij by simp
  ultimately show ?thesis by (simp add: consumed_def tb)
qed

lemma symbol_of_kind: "tok_type t \<noteq> NUMBER \<Longrightarrow> symbol_of t = Kind (tok_type t)"
  by (simp add: symbol_of_def)

lemma symbol_of_number: "tok_type t = NUMBER \<Longrightarrow> symbol_of t = Number (tok_value t)"
  by (simp add: symbol_of_def)

lemma parse_reads:
  "\<forall>e ps'. parse_expression ps = Inr (e, ps') \<longrightarrow>
      advanced ps ps' \<and> inorder e = consumed ps ps'"
  "\<forall>e ps'. parse_expression_loop left ps = Inr (e, ps') \<longrightarrow>
      advanced ps ps' \<and> inorder e = inorder left @ consumed ps ps'"
  "\<forall>e ps'. parse_term ps = Inr (e, ps') \<longrightarrow>
      advanced ps ps' \<and> inorder e = consumed ps ps'"
  "\<forall>e ps'. parse_term_loop left ps = Inr (e, ps') \<longrightarrow>
      advanced ps ps' \<and> inorder e = inorder left @ consumed ps ps'"
  "\<forall>e ps'. parse_factor ps = Inr (e, ps') \<longrightarrow>
      advanced ps ps' \<and> inorder e = consumed ps ps'"
proof (induct ps and left ps and ps and left ps and ps
    rule: parse_expression_parse_expression_loop_parse_term_parse_term_loop_parse_factor.induct)
  case (1 ps)
  show ?case
  proof (intro allI impI)
    fix e ps'
    assume "parse_expression ps = Inr (e, ps')"
    then obtain l ps1 where pt: "parse_term ps = Inr (l, ps1)"
      and lp: "parse_expression_loop l ps1 = Inr (e, ps')"
      by (rule parse_expression_InrE)
    from 1(1) pt have a: "advanced ps ps1" and b: "inorder l = consumed ps ps1" by simp_all
    from 1(2) [OF pt refl] lp have c: "advanced ps1 ps'"
      and d: "inorder e = inorder l @ consumed ps1 ps'" by simp_all
    from a c have "advanced ps ps'" by (rule advanced_trans)
    moreover from b d consumed_trans [OF a c] have "inorder e = consumed ps ps'" by simp
    ultimately show "advanced ps ps' \<and> inorder e = consumed ps ps'" ..
  qed
next
  case (2 left ps)
  show ?case
  proof (intro allI impI)
    fix e ps'
    assume "parse_expression_loop left ps = Inr (e, ps')"
    then show "advanced ps ps' \<and> inorder e = inorder left @ consumed ps ps'"
    proof (cases rule: parse_expression_loop_InrE)
      case stop
      then show ?thesis by simp
    next
      case (step op right ps2)
      from 2(1) [OF step(1,2)] step(3) have a: "advanced (parser_advance ps) ps2"
        and b: "inorder right = consumed (parser_advance ps) ps2" by simp_all
      from 2(2) [OF step(1,2,3) refl] step(4) have c: "advanced ps2 ps'"
        and d: "inorder e = inorder (if tok_type op = PLUS then Add left right
              else if tok_type op = MINUS then Minus left right else left) @ consumed ps2 ps'"
        by simp_all
      have s: "advanced ps (parser_advance ps)" by simp
      from s a have sa: "advanced ps ps2" by (rule advanced_trans)
      from sa c have "advanced ps ps'" by (rule advanced_trans)
      moreover have "consumed ps ps' = symbol_of op # consumed (parser_advance ps) ps2 @ consumed ps2 ps'"
        using consumed_trans [OF sa c] consumed_trans [OF s a] consumed_advance [OF step(1)]
        by simp
      moreover from step(2) have "symbol_of op = Kind (tok_type op)"
        by (auto simp: symbol_of_def)
      ultimately show ?thesis using b d step(2) by auto
    qed
  qed
next
  case (3 ps)
  show ?case
  proof (intro allI impI)
    fix e ps'
    assume "parse_term ps = Inr (e, ps')"
    then obtain l ps1 where pt: "parse_factor ps = Inr (l, ps1)"
      and lp: "parse_term_loop l ps1 = Inr (e, ps')"
      by (rule parse_term_InrE)
    from 3(1) pt have a: "advanced ps ps1" and b: "inorder l = consumed ps ps1" by simp_all
    from 3(2) [OF pt refl] lp have c: "advanced ps1 ps'"
      and d: "inorder e = inorder l @ consumed ps1 ps'" by simp_all
    from a c have "advanced ps ps'" by (rule advanced_trans)
    moreover from b d consumed_trans [OF a c] have "inorder e = consumed ps ps'" by simp
    ultimately show "advanced ps ps' \<and> inorder e = consumed ps ps'" ..
  qed
next
  case (4 left ps)
  show ?case
  proof (intro allI impI)
    fix e ps'
    assume "parse_term_loop left ps = Inr (e, ps')"
    then show "advanced ps ps' \<and> inorder e = inorder left @ consumed ps ps'"
    proof (cases rule: parse_term_loop_InrE)
      case stop
      then show ?thesis by simp
    next
      case (step op right ps2)
      from 4(1) [OF step(1,2)] step(3) have a: "advanced (parser_advance ps) ps2"
        and b: "inorder right = consumed (parser_advance ps) ps2" by simp_all
      from 4(2) [OF step(1,2,3) refl] step(4) have c: "advanced ps2 ps'"
        and d: "inorder e = inorder (if tok_type op = MULTIPLY then Multi left right
              else if tok_type op = DIVIDE then Div left right else left) @ consumed ps2 ps'"
        by simp_all
      have s: "advanced ps (parser_advance ps)" by simp
      from s a have sa: "advanced ps ps2" by (rule advanced_trans)
      from sa c have "advanced ps ps'" by (rule advanced_trans)
      moreover have "consumed ps ps' = symbol_of op # consumed (parser_advance ps) ps2 @ consumed ps2 ps'"
        using consumed_trans [OF sa c] consumed_trans [OF s a] consumed_advance [OF step(1)]
        by simp
      moreover from step(2) have "symbol_of op = Kind (tok_type op)"
        by (auto simp: symbol_of_def)
      ultimately show ?thesis using b d step(2) by auto
    qed
  qed
next
  case (5 ps)
  show ?case
  proof (intro allI impI)
    fix e ps'
    assume "parse_factor ps = Inr (e, ps')"
    then show "advanced ps ps' \<and> inorder e = consumed ps ps'"
    proof (cases rule: parse_factor_InrE)
      case (number tok)
      then show ?thesis by (simp add: consumed_advance symbol_of_def)
    next
      case (paren tok expr ps1 t)
      from 5 [OF paren(1,2,3)] paren(4) have a: "advanced (parser_advance ps) ps1"
        and b: "inorder expr = consumed (parser_advance ps) ps1" by simp_all
      from paren(5) have ct: "current_token ps1 = Some t" and tt: "tok_type t = RPAREN"
        and p': "ps' = parser_advance ps1" by (auto elim: expect_InrE)
      have s: "advanced ps (parser_advance ps)" by simp
      from s a have sa: "advanced ps ps1" by (rule advanced_trans)
      have c: "advanced ps1 ps'" by (simp add: p')
      from sa c have "advanced ps ps'" by (rule advanced_trans)
      moreover have "consumed ps ps' = symbol_of tok # consumed (parser_advance ps) ps1 @ [symbol_of t]"
        using consumed_trans [OF sa c] consumed_trans [OF s a] consumed_advance [OF paren(1)]
          consumed_advance [OF ct] by (simp add: p')
      ultimately show ?thesis using b paren(3,6) tt by (simp add: symbol_of_def)
    qed
  qed
qed


lemma parse_shape:
  "\<forall>e ps'. parse_expression ps = Inr (e, ps') \<longrightarrow> binds_tighter e \<and> groups_left e"
  "\<forall>e ps'. parse_expression_loop left ps = Inr (e, ps') \<longrightarrow>
      binds_tighter left \<and> groups_left left \<longrightarrow> binds_tighter e \<and> groups_left e"
  "\<forall>e ps'. parse_term ps = Inr (e, ps') \<longrightarrow>
      \<not> is_additive e \<and> binds_tighter e \<and> groups_left e"
  "\<forall>e ps'. parse_term_loop left ps = Inr (e, ps') \<longrightarrow>
      \<not> is_additive left \<and> binds_tighter left \<and> groups_left left \<longrightarrow>
      \<not> is_additive e \<and> binds_tighter e \<and> groups_left e"
  "\<forall>e ps'. parse_factor ps = Inr (e, ps') \<longrightarrow>
      \<not> is_additive e \<and> \<not> is_multiplicative e \<and> binds_tighter e \<and> groups_left e"
proof (induct ps and left ps and ps and left ps and ps
    rule: parse_expression_parse_expression_loop_parse_term_parse_term_loop_parse_factor.induct)
  case (1 ps)
  show ?case
  proof (intro allI impI)
    fix e ps'
    assume "parse_expression ps = Inr (e, ps')"
    then obtain l ps1 where pt: "parse_term ps = Inr (l, ps1)"
      and lp: "parse_expression_loop l ps1 = Inr (e, ps')"
      by (rule parse_expression_InrE)
    from 1(1) pt have "binds_tighter l \<and> groups_left l" by simp
    with 1(2) [OF pt refl] lp show "binds_tighter e \<and> groups_left e" by simp
  qed
next
  case (2 left ps)
  show ?case
  proof (intro allI impI)
    fix e ps'
    assume "parse_expression_loop left ps = Inr (e, ps')"
      and good: "binds_tighter left \<and> groups_left left"
    then show "binds_tighter e \<and> groups_left e"
    proof (cases rule: parse_expression_loop_InrE)
      case stop
      with good show ?thesis by simp
    next
      case (step op right ps2)
      let ?left = "if tok_type op = PLUS then Add left right
              else if tok_type op = MINUS then Minus left right else left"
      from 2(1) [OF step(1,2)] step(3)
      have "\<not> is_additive right \<and> binds_tighter right \<and> groups_left right" by simp
      with good have "binds_tighter ?left \<and> groups_left ?left" by simp
      with 2(2) [OF step(1,2,3) refl] step(4) show ?thesis by simp
    qed
  qed
next
  case (3 ps)
  show ?case
  proof (intro allI impI)
    fix e ps'
    assume "parse_term ps = Inr (e, ps')"
    then obtain l ps1 where pt: "parse_factor ps = Inr (l, ps1)"
      and lp: "parse_term_loop l ps1 = Inr (e, ps')"
      by (rule parse_term_InrE)
    from 3(1) pt have "\<not> is_additive l \<and> binds_tighter l \<and> groups_left l" by simp
    with 3(2) [OF pt refl] lp show "\<not> is_additive e \<and> binds_tighter e \<and> groups_left e"
      by simp
  qed
next
  case (4 left ps)
  show ?case
  proof (intro allI impI)
    fix e ps'
    assume "parse_term_loop left ps = Inr (e, ps')"
      and good: "\<not> is_additive left \<and> binds_tighter left \<and> groups_left left"
    then show "\<not> is_additive e \<and> binds_tighter e \<and> groups_left e"
    proof (cases rule: parse_term_loop_InrE)
      case stop
      with good show ?thesis by simp
    next
      case (step op right ps2)
      let ?left = "if tok_type op = MULTIPLY then Multi left right
              else if tok_type op = DIVIDE then Div left right else left"
      from 4(1) [OF step(1,2)] step(3)
      have "\<not> is_additive right \<and> \<not> is_multiplicative right \<and> binds_tighter right
          \<and> groups_left right" by simp
      with good have "\<not> is_additive ?left \<and> binds_tighter ?left \<and> groups_left ?left" by simp
      with 4(2) [OF step(1,2,3) refl] step(4) show ?thesis by simp
    qed
  qed
next
  case (5 ps)
  show ?case
  proof (intro allI impI)
    fix e ps'
    assume "parse_factor ps = Inr (e, ps')"
    then show "\<not> is_additive e \<and> \<not> is_multiplicative e \<and> binds_tighter e \<and> groups_left e"
    proof (cases rule: parse_factor_InrE)
      case (number tok)
      then show ?thesis by simp
    next
      case (paren tok expr ps1 t)
      from 5 [OF paren(1,2,3)] paren(4) have "binds_tighter expr \<and> groups_left expr" by simp
      with paren(6) show ?thesis by simp
    qed
  qed
qed

text \<open>
  The errors by where they are raised: in the lexer (the invalid character, and the
  \<open>ValueError\<close> of \<open>int\<close> or \<open>float\<close> in \<open>read_number\<close>) or in the parser.
\<close>

fun is_lexical_error :: "error \<Rightarrow> bool" where
  "is_lexical_error (InvalidCharacter c p) = True"
| "is_lexical_error (ConversionError s) = True"
| "is_lexical_error e = False"

fun is_syntax_error :: "error \<Rightarrow> bool" where
  "is_syntax_error (ExpectedToken a b) = True"
| "is_syntax_error (UnexpectedToken t) = True"
| "is_syntax_error e = False"

text \<open>
  A state of the parser on a token list that ends with an \<open>EOF\<close> token, with the
  current token inside the list.
\<close>

definition in_bounds :: "Parser \<Rightarrow> bool" where
  "in_bounds ps \<longleftrightarrow>
     ps_position ps < length (ps_tokens ps) \<and> tok_type (last (ps_tokens ps)) = EOF"

lemma in_bounds_current: "in_bounds ps \<Longrightarrow> \<exists>t. current_token ps = Some t"
  by (simp add: in_bounds_def current_token_def)

lemma in_bounds_advance:
  assumes "in_bounds ps" and "current_token ps = Some t" and "tok_type t \<noteq> EOF"
  shows "in_bounds (parser_advance ps)"
proof -
  from assms(1) have lt: "ps_position ps < length (ps_tokens ps)"
    and eof: "tok_type (last (ps_tokens ps)) = EOF" by (simp_all add: in_bounds_def)
  from lt have ne: "ps_tokens ps \<noteq> []" by auto
  from assms(2) lt have t: "t = ps_tokens ps ! ps_position ps"
    by (simp add: current_token_def)
  have "ps_position ps \<noteq> length (ps_tokens ps) - 1"
  proof
    assume "ps_position ps = length (ps_tokens ps) - 1"
    with t ne have "t = last (ps_tokens ps)" by (simp add: last_conv_nth)
    with eof assms(3) show False by simp
  qed
  with lt have "ps_position ps + 1 < length (ps_tokens ps)" by simp
  with eof show ?thesis by (simp add: in_bounds_def parser_advance_def)
qed

lemma in_bounds_advanced:
  "in_bounds ps \<Longrightarrow> advanced ps ps' \<Longrightarrow> ps_position ps' < length (ps_tokens ps) \<Longrightarrow> in_bounds ps'"
  by (simp add: in_bounds_def advanced_def)

lemma expect_in_bounds:
  "in_bounds ps \<Longrightarrow> expect ps RPAREN = Inr (t, ps') \<Longrightarrow> in_bounds ps'"
  by (erule expect_InrE [of ps RPAREN t ps']) (auto intro: in_bounds_advance)

lemma expect_error: "expect ps k = Inl err \<Longrightarrow> is_syntax_error err"
  by (auto simp: expect_def split: option.splits if_splits)

lemma parse_in_bounds:
  "in_bounds ps \<longrightarrow> (\<forall>err. parse_expression ps = Inl err \<longrightarrow> is_syntax_error err) \<and>
      (\<forall>e ps'. parse_expression ps = Inr (e, ps') \<longrightarrow> in_bounds ps')"
  "in_bounds ps \<longrightarrow> (\<forall>err. parse_expression_loop left ps = Inl err \<longrightarrow> is_syntax_error err) \<and>
      (\<forall>e ps'. parse_expression_loop left ps = Inr (e, ps') \<longrightarrow> in_bounds ps')"
  "in_bounds ps \<longrightarrow> (\<forall>err. parse_term ps = Inl err \<longrightarrow> is_syntax_error err) \<and>
      (\<forall>e ps'. parse_term ps = Inr (e, ps') \<longrightarrow> in_bounds ps')"
  "in_bounds ps \<longrightarrow> (\<forall>err. parse_term_loop left ps = Inl err \<longrightarrow> is_syntax_error err) \<and>
      (\<forall>e ps'. parse_term_loop left ps = Inr (e, ps') \<longrightarrow> in_bounds ps')"
  "in_bounds ps \<longrightarrow> (\<forall>err. parse_factor ps = Inl err \<longrightarrow> is_syntax_error err) \<and>
      (\<forall>e ps'. parse_factor ps = Inr (e, ps') \<longrightarrow> in_bounds ps')"
proof (induct ps and left ps and ps and left ps and ps
    rule: parse_expression_parse_expression_loop_parse_term_parse_term_loop_parse_factor.induct)
  case (1 ps)
  show ?case
  proof
    assume ib: "in_bounds ps"
    show "(\<forall>err. parse_expression ps = Inl err \<longrightarrow> is_syntax_error err) \<and>
      (\<forall>e ps'. parse_expression ps = Inr (e, ps') \<longrightarrow> in_bounds ps')"
    proof (cases "parse_term ps")
      case (Inl err)
      with 1(1) ib show ?thesis by (subst (1 2) parse_expression.simps) auto
    next
      case (Inr b)
      obtain l ps1 where b: "b = (l, ps1)" by (cases b)
      from 1(1) ib Inr b have "in_bounds ps1" by simp
      with 1(2) [OF Inr b [symmetric]] Inr b show ?thesis
        by (subst (1 2) parse_expression.simps) simp
    qed
  qed
next
  case (2 left ps)
  show ?case
  proof
    assume ib: "in_bounds ps"
    show "(\<forall>err. parse_expression_loop left ps = Inl err \<longrightarrow> is_syntax_error err) \<and>
      (\<forall>e ps'. parse_expression_loop left ps = Inr (e, ps') \<longrightarrow> in_bounds ps')"
    proof (cases "current_token ps")
      case None
      with ib show ?thesis by (subst (1 2) parse_expression_loop.simps) simp
    next
      case (Some op)
      show ?thesis
      proof (cases "tok_type op = PLUS \<or> tok_type op = MINUS")
        case False
        with Some ib show ?thesis by (subst (1 2) parse_expression_loop.simps) simp
      next
        case True
        with ib Some have ia: "in_bounds (parser_advance ps)"
          by (auto intro: in_bounds_advance)
        show ?thesis
        proof (cases "parse_term (parser_advance ps)")
          case (Inl err)
          with 2(1) [OF Some True] ia Some True show ?thesis
            by (subst (1 2) parse_expression_loop.simps) auto
        next
          case (Inr b)
          obtain right ps2 where b: "b = (right, ps2)" by (cases b)
          from 2(1) [OF Some True] ia Inr b have "in_bounds ps2" by simp
          with 2(2) [OF Some True Inr b [symmetric]] Inr b Some True show ?thesis
            by (subst (1 2) parse_expression_loop.simps) simp
        qed
      qed
    qed
  qed
next
  case (3 ps)
  show ?case
  proof
    assume ib: "in_bounds ps"
    show "(\<forall>err. parse_term ps = Inl err \<longrightarrow> is_syntax_error err) \<and>
      (\<forall>e ps'. parse_term ps = Inr (e, ps') \<longrightarrow> in_bounds ps')"
    proof (cases "parse_factor ps")
      case (Inl err)
      with 3(1) ib show ?thesis by (subst (1 2) parse_term.simps) auto
    next
      case (Inr b)
      obtain l ps1 where b: "b = (l, ps1)" by (cases b)
      from 3(1) ib Inr b have "in_bounds ps1" by simp
      with 3(2) [OF Inr b [symmetric]] Inr b show ?thesis
        by (subst (1 2) parse_term.simps) simp
    qed
  qed
next
  case (4 left ps)
  show ?case
  proof
    assume ib: "in_bounds ps"
    show "(\<forall>err. parse_term_loop left ps = Inl err \<longrightarrow> is_syntax_error err) \<and>
      (\<forall>e ps'. parse_term_loop left ps = Inr (e, ps') \<longrightarrow> in_bounds ps')"
    proof (cases "current_token ps")
      case None
      with ib show ?thesis by (subst (1 2) parse_term_loop.simps) simp
    next
      case (Some op)
      show ?thesis
      proof (cases "tok_type op = MULTIPLY \<or> tok_type op = DIVIDE")
        case False
        with Some ib show ?thesis by (subst (1 2) parse_term_loop.simps) simp
      next
        case True
        with ib Some have ia: "in_bounds (parser_advance ps)"
          by (auto intro: in_bounds_advance)
        show ?thesis
        proof (cases "parse_factor (parser_advance ps)")
          case (Inl err)
          with 4(1) [OF Some True] ia Some True show ?thesis
            by (subst (1 2) parse_term_loop.simps) auto
        next
          case (Inr b)
          obtain right ps2 where b: "b = (right, ps2)" by (cases b)
          from 4(1) [OF Some True] ia Inr b have "in_bounds ps2" by simp
          with 4(2) [OF Some True Inr b [symmetric]] Inr b Some True show ?thesis
            by (subst (1 2) parse_term_loop.simps) simp
        qed
      qed
    qed
  qed
next
  case (5 ps)
  show ?case
  proof
    assume ib: "in_bounds ps"
    then obtain tok where ct: "current_token ps = Some tok"
      by (auto dest: in_bounds_current)
    show "(\<forall>err. parse_factor ps = Inl err \<longrightarrow> is_syntax_error err) \<and>
      (\<forall>e ps'. parse_factor ps = Inr (e, ps') \<longrightarrow> in_bounds ps')"
    proof (cases "tok_type tok = NUMBER")
      case True
      with ib ct have "in_bounds (parser_advance ps)" by (auto intro: in_bounds_advance)
      with ct True show ?thesis by (subst (1 2) parse_factor.simps) simp
    next
      case False
      show ?thesis
      proof (cases "tok_type tok = LPAREN")
        case nl: False
        with ct False show ?thesis by (subst (1 2) parse_factor.simps) simp
      next
        case True
        with ib ct have ia: "in_bounds (parser_advance ps)" by (auto intro: in_bounds_advance)
        show ?thesis
        proof (cases "parse_expression (parser_advance ps)")
          case (Inl err)
          with 5 [OF ct False True] ia ct False True show ?thesis
            by (subst (1 2) parse_factor.simps) auto
        next
          case (Inr b)
          obtain expr ps1 where b: "b = (expr, ps1)" by (cases b)
          from 5 [OF ct False True] ia Inr b have i1: "in_bounds ps1" by simp
          show ?thesis
          proof (cases "expect ps1 RPAREN")
            case el: (Inl err)
            then have "is_syntax_error err" by (rule expect_error)
            with el Inr b ct False True show ?thesis
              by (subst (1 2) parse_factor.simps) simp
          next
            case er: (Inr c)
            obtain t ps2 where c: "c = (t, ps2)" by (cases c)
            from i1 er c have "in_bounds ps2" by (auto intro: expect_in_bounds)
            with er c Inr b ct False True show ?thesis
              by (subst (1 2) parse_factor.simps) simp
          qed
        qed
      qed
    qed
  qed
qed


section \<open>Properties of the lexer\<close>

definition is_operator_char :: "char \<Rightarrow> bool" where
  "is_operator_char c \<longleftrightarrow> c \<in> set ''+-*/()''"

text \<open>
  The characters the dispatch of \<open>get_next_token\<close> has a branch for, and those among
  them whose digits are decimal.
\<close>

definition recognized :: "char \<Rightarrow> bool" where
  "recognized c \<longleftrightarrow> isspace c \<or> isdigit c \<or> is_operator_char c"

definition plain :: "char \<Rightarrow> bool" where
  "plain c \<longleftrightarrow> isspace c \<or> isdecimal c \<or> is_operator_char c"

text \<open>
  From no offset of the text on do more decimal digits follow one another than \<open>int\<close>
  converts.
\<close>

definition short_digit_runs :: "string \<Rightarrow> bool" where
  "short_digit_runs s \<longleftrightarrow>
     list_all (\<lambda>i. length (takeWhile isdecimal (drop i s)) \<le> int_max_str_digits)
       [0..<length s]"

lemma isdecimal_isdigit: "isdecimal c \<Longrightarrow> isdigit c"
  by (simp add: isdecimal_def isdigit_def Let_def)

lemma isdecimal_not_space: "isdecimal c \<Longrightarrow> \<not> isspace c"
  by (auto simp: isdecimal_def isspace_def Let_def)

lemma plain_digit: "plain c \<Longrightarrow> isdigit c \<Longrightarrow> isdecimal c"
  by (auto simp: plain_def isdigit_def isdecimal_def isspace_def is_operator_char_def Let_def)

lemma plain_not_dot: "plain c \<Longrightarrow> c \<noteq> CHR ''.''"
  by (auto simp: plain_def isdecimal_def isspace_def is_operator_char_def Let_def)

lemma dot_not_decimal: "\<not> isdecimal CHR ''.''"
  by (simp add: isdecimal_def)

lemma rest_Lexer_init [simp]: "rest (Lexer_init s) = s"
  by (simp add: rest_def Lexer_init_def)

lemma rest_shift:
  "rest (lx\<lparr>lx_position := lx_position lx + n\<rparr>) = drop n (rest lx)"
  by (simp add: rest_def add.commute)

lemma rest_advance_drop: "rest (lexer_advance lx) = drop 1 (rest lx)"
  by (simp add: rest_def lexer_advance_def)

lemma current_char_Some: "current_char lx = Some c \<Longrightarrow> \<exists>cs. rest lx = c # cs"
  by (auto simp: current_char_rest split: list.splits)

lemma get_next_token_cases:
  "get_next_token lx =
     (case rest lx of
        [] \<Rightarrow> Inr (Token EOF NoneValue (lx_position lx), lx)
      | c # cs \<Rightarrow>
          if isspace c then get_next_token (skip_whitespace lx)
          else if isdigit c then read_number lx
          else if c = CHR ''+'' then Inr (Token PLUS (StrValue ''+'') (lx_position lx), lexer_advance lx)
          else if c = CHR ''-'' then Inr (Token MINUS (StrValue ''-'') (lx_position lx), lexer_advance lx)
          else if c = CHR ''*'' then Inr (Token MULTIPLY (StrValue ''*'') (lx_position lx), lexer_advance lx)
          else if c = CHR ''/'' then Inr (Token DIVIDE (StrValue ''/'') (lx_position lx), lexer_advance lx)
          else if c = CHR ''('' then Inr (Token LPAREN (StrValue ''('') (lx_position lx), lexer_advance lx)
          else if c = CHR '')'' then Inr (Token RPAREN (StrValue '')'') (lx_position lx), lexer_advance lx)
          else Inl (InvalidCharacter c (lx_position lx)))"
  by (subst get_next_token.simps) (simp add: current_char_rest split: list.splits)

lemma read_number_eq:
  "read_number lx =
     (let run = takeWhile (\<lambda>c. isdigit c \<or> c = CHR ''.'') (rest lx);
          lx' = lx\<lparr>lx_position := lx_position lx + length run\<rparr>
      in if CHR ''.'' \<in> set run
         then (case py_float run of
                 None \<Rightarrow> Inl (ConversionError run)
               | Some v \<Rightarrow> Inr (Token NUMBER v (lx_position lx), lx'))
         else (case py_int run of
                 None \<Rightarrow> Inl (ConversionError run)
               | Some v \<Rightarrow> Inr (Token NUMBER (NumberValue (PyInt v)) (lx_position lx), lx')))"
  by (simp add: read_number_def read_number_loop_eq Let_def)

lemma read_number_error: "read_number lx = Inl err \<Longrightarrow> is_lexical_error err"
  by (auto simp: read_number_eq Let_def split: if_splits option.splits)

lemma get_next_token_error: "get_next_token lx = Inl err \<Longrightarrow> is_lexical_error err"
proof (induction lx rule: get_next_token.induct)
  case (1 lx)
  show ?case
  proof (cases "current_char lx")
    case None
    with 1(2) show ?thesis by (subst (asm) get_next_token.simps) simp
  next
    case (Some c)
    show ?thesis
    proof (cases "isspace c")
      case True
      with Some 1(2) have "get_next_token (skip_whitespace lx) = Inl err"
        by (subst (asm) get_next_token.simps) simp
      with 1(1) [OF Some True] show ?thesis by simp
    next
      case False
      with Some 1(2) show ?thesis
        by (subst (asm) get_next_token.simps)
           (auto split: if_splits dest: read_number_error)
    qed
  qed
qed

lemma tokenize_loop_error: "tokenize_loop lx ts = Inl err \<Longrightarrow> is_lexical_error err"
proof (induction lx ts rule: tokenize_loop.induct)
  case (1 lx ts)
  show ?case
  proof (cases "get_next_token lx")
    case (Inl e)
    with 1(2) have "err = e" by (subst (asm) tokenize_loop.simps) simp
    with Inl show ?thesis by (auto dest: get_next_token_error)
  next
    case (Inr b)
    obtain t lx' where b: "b = (t, lx')" by (cases b)
    show ?thesis
    proof (cases "tok_type t = EOF")
      case True
      with Inr b 1(2) show ?thesis by (subst (asm) tokenize_loop.simps) simp
    next
      case False
      with Inr b 1(2) have "tokenize_loop lx' (ts @ [t]) = Inl err"
        by (subst (asm) tokenize_loop.simps) simp
      with 1(1) [OF Inr b [symmetric] False] show ?thesis by simp
    qed
  qed
qed

lemma tokenize_loop_shape:
  "tokenize_loop lx ts = Inr toks \<Longrightarrow>
     \<exists>pre t. toks = ts @ pre @ [t] \<and> tok_type t = EOF \<and> list_all (\<lambda>x. tok_type x \<noteq> EOF) pre"
proof (induction lx ts arbitrary: toks rule: tokenize_loop.induct)
  case (1 lx ts)
  show ?case
  proof (cases "get_next_token lx")
    case (Inl e)
    with 1(2) show ?thesis by (subst (asm) tokenize_loop.simps) simp
  next
    case (Inr b)
    obtain t lx' where b: "b = (t, lx')" by (cases b)
    show ?thesis
    proof (cases "tok_type t = EOF")
      case True
      with Inr b 1(2) have "toks = ts @ [] @ [t]" by (subst (asm) tokenize_loop.simps) simp
      with True show ?thesis by (intro exI [of _ "[]"] exI [of _ t]) simp
    next
      case False
      with Inr b 1(2) have "tokenize_loop lx' (ts @ [t]) = Inr toks"
        by (subst (asm) tokenize_loop.simps) simp
      from 1(1) [OF Inr b [symmetric] False this] obtain pre u where
        "toks = (ts @ [t]) @ pre @ [u]" and "tok_type u = EOF"
        and "list_all (\<lambda>x. tok_type x \<noteq> EOF) pre" by blast
      with False show ?thesis by (intro exI [of _ "t # pre"] exI [of _ u]) simp
    qed
  qed
qed

lemma tokenize_shape:
  assumes "tokenize lx = Inr toks"
  shows "toks \<noteq> []" and "tok_type (last toks) = EOF"
    and "list_all (\<lambda>x. tok_type x \<noteq> EOF) (butlast toks)"
proof -
  from assms obtain pre t where "toks = pre @ [t]" and "tok_type t = EOF"
    and "list_all (\<lambda>x. tok_type x \<noteq> EOF) pre"
    using tokenize_loop_shape [of lx "[]" toks] by (auto simp: tokenize_def)
  then show "toks \<noteq> []" and "tok_type (last toks) = EOF"
    and "list_all (\<lambda>x. tok_type x \<noteq> EOF) (butlast toks)"
    by simp_all
qed


lemma list_all_drop: "list_all P xs \<Longrightarrow> list_all P (drop n xs)"
  by (auto simp: list_all_iff dest: in_set_dropD)

lemma list_all_takeWhile: "list_all P xs \<Longrightarrow> list_all P (takeWhile Q xs)"
  by (auto simp: list_all_iff dest: set_takeWhileD)

lemma plain_run_decimal:
  assumes "list_all plain xs"
  shows "list_all isdecimal (takeWhile (\<lambda>c. isdigit c \<or> c = CHR ''.'') xs)"
proof -
  have "isdecimal c" if "c \<in> set (takeWhile (\<lambda>c. isdigit c \<or> c = CHR ''.'') xs)" for c
  proof -
    from that have "c \<in> set xs" and "isdigit c \<or> c = CHR ''.''"
      by (auto dest: set_takeWhileD)
    with assms show ?thesis by (auto simp: list_all_iff dest: plain_digit plain_not_dot)
  qed
  then show ?thesis by (simp add: list_all_iff)
qed

lemma decimal_no_dot: "list_all isdecimal xs \<Longrightarrow> CHR ''.'' \<notin> set xs"
  by (auto simp: list_all_iff dot_not_decimal)

lemma short_digit_runs_drop: "short_digit_runs s \<Longrightarrow> short_digit_runs (drop k s)"
proof -
  assume s: "short_digit_runs s"
  have "length (takeWhile isdecimal (drop i (drop k s))) \<le> int_max_str_digits"
    if "i < length (drop k s)" for i
  proof -
    from that have "i + k < length s" by simp
    with s have "length (takeWhile isdecimal (drop (i + k) s)) \<le> int_max_str_digits"
      by (simp add: short_digit_runs_def list_all_iff)
    then show ?thesis by simp
  qed
  then show ?thesis by (simp add: short_digit_runs_def list_all_iff)
qed

lemma short_digit_runs_here:
  assumes "short_digit_runs s"
  shows "length (takeWhile isdecimal s) \<le> int_max_str_digits"
proof (cases s)
  case Nil
  then show ?thesis by simp
next
  case (Cons c cs)
  then have "0 < length s" by simp
  with assms have "length (takeWhile isdecimal (drop 0 s)) \<le> int_max_str_digits"
    unfolding short_digit_runs_def list_all_iff by (metis atLeast0LessThan lessThan_iff set_upt)
  then show ?thesis by simp
qed

lemma plain_run:
  assumes "list_all plain xs"
  shows "takeWhile (\<lambda>c. isdigit c \<or> c = CHR ''.'') xs = takeWhile isdecimal xs"
proof (rule takeWhile_cong [OF refl])
  fix x
  assume "x \<in> set xs"
  with assms have "plain x" by (simp add: list_all_iff)
  then show "(isdigit x \<or> x = CHR ''.'') = isdecimal x"
    by (auto dest: plain_digit plain_not_dot isdecimal_isdigit)
qed

text \<open>A text the lexer reads to its end: plain characters, and no run of digits too long.\<close>

definition tokenizable :: "string \<Rightarrow> bool" where
  "tokenizable s \<longleftrightarrow> list_all plain s \<and> short_digit_runs s"

lemma tokenizable_drop: "tokenizable s \<Longrightarrow> tokenizable (drop k s)"
  by (simp add: tokenizable_def list_all_drop short_digit_runs_drop)

lemma get_next_token_plain:
  "tokenizable (rest lx) \<Longrightarrow>
     \<exists>t lx'. get_next_token lx = Inr (t, lx') \<and> tokenizable (rest lx')"
proof (induction lx rule: get_next_token.induct)
  case (1 lx)
  from 1(2) have pl: "list_all plain (rest lx)" and sh: "short_digit_runs (rest lx)"
    by (simp_all add: tokenizable_def)
  show ?case
  proof (cases "rest lx")
    case Nil
    with 1(2) show ?thesis by (subst get_next_token_cases) simp
  next
    case (Cons c cs)
    then have cc: "current_char lx = Some c" by (simp add: current_char_rest)
    from Cons pl have pc: "plain c" by simp
    show ?thesis
    proof (cases "isspace c")
      case True
      have "tokenizable (rest (skip_whitespace lx))"
        using 1(2) by (simp add: skip_whitespace_eq rest_shift tokenizable_drop)
      from 1(1) [OF cc True this] Cons True show ?thesis
        by (subst get_next_token_cases) simp
    next
      case False
      show ?thesis
      proof (cases "isdigit c")
        case True
        let ?run = "takeWhile (\<lambda>c. isdigit c \<or> c = CHR ''.'') (rest lx)"
        from pl have dec: "list_all isdecimal ?run" by (rule plain_run_decimal)
        then have nodot: "CHR ''.'' \<notin> set ?run" by (rule decimal_no_dot)
        from Cons True have ne: "?run \<noteq> []" by simp
        from sh have "length ?run \<le> int_max_str_digits"
          by (simp only: plain_run [OF pl] short_digit_runs_here)
        with dec ne have "py_int ?run = Some (decimal_value ?run)" by (simp add: py_int_def)
        with nodot have "read_number lx =
            Inr (Token NUMBER (NumberValue (PyInt (decimal_value ?run))) (lx_position lx),
                 lx\<lparr>lx_position := lx_position lx + length ?run\<rparr>)"
          by (simp add: read_number_eq Let_def)
        moreover have "tokenizable (rest (lx\<lparr>lx_position := lx_position lx + length ?run\<rparr>))"
          using 1(2) by (simp only: rest_shift tokenizable_drop)
        ultimately show ?thesis using Cons False True
          by (subst get_next_token_cases) simp
      next
        case nd: False
        from pc False nd have "is_operator_char c"
          by (auto simp: plain_def dest: isdecimal_isdigit)
        moreover have "tokenizable (rest (lexer_advance lx))"
          using 1(2) by (simp add: rest_advance_drop tokenizable_drop)
        ultimately show ?thesis using Cons False nd
          by (subst get_next_token_cases) (auto simp: is_operator_char_def)
      qed
    qed
  qed
qed

lemma tokenize_loop_plain:
  "tokenizable (rest lx) \<Longrightarrow> \<exists>toks. tokenize_loop lx ts = Inr toks"
proof (induction lx ts rule: tokenize_loop.induct)
  case (1 lx ts)
  from get_next_token_plain [OF 1(2)] obtain t lx' where
    g: "get_next_token lx = Inr (t, lx')" and p: "tokenizable (rest lx')" by blast
  show ?case
  proof (cases "tok_type t = EOF")
    case True
    with g show ?thesis by (subst tokenize_loop.simps) simp
  next
    case False
    from 1(1) [OF g refl False p] g False show ?thesis
      by (subst tokenize_loop.simps) simp
  qed
qed

lemma in_bounds_Parser_init:
  "toks \<noteq> [] \<Longrightarrow> tok_type (last toks) = EOF \<Longrightarrow> in_bounds (Parser_init toks)"
  by (simp add: in_bounds_def Parser_init_def)

lemma eof_position:
  assumes "list_all (\<lambda>x. tok_type x \<noteq> EOF) (butlast (ps_tokens ps))"
    and "current_token ps = Some t" and "tok_type t = EOF"
  shows "ps_position ps = length (ps_tokens ps) - 1"
proof (rule ccontr)
  assume n: "ps_position ps \<noteq> length (ps_tokens ps) - 1"
  from assms(2) have lt: "ps_position ps < length (ps_tokens ps)"
    and t: "t = ps_tokens ps ! ps_position ps"
    by (auto simp: current_token_def split: if_splits)
  from n lt have "ps_position ps < length (butlast (ps_tokens ps))" by simp
  then have "butlast (ps_tokens ps) ! ps_position ps \<in> set (butlast (ps_tokens ps))"
    by (rule nth_mem)
  moreover from \<open>ps_position ps < length (butlast (ps_tokens ps))\<close>
  have "butlast (ps_tokens ps) ! ps_position ps = t" by (simp add: t nth_butlast)
  ultimately have "tok_type t \<noteq> EOF" using assms(1) by (auto simp: list_all_iff)
  with assms(3) show False by simp
qed

lemma parse_InrE:
  assumes "parse ps = Inr e"
  obtains ps' where "parse_expression ps = Inr (e, ps')"
    and "\<forall>t. current_token ps' = Some t \<longrightarrow> tok_type t = EOF"
  using assms by (auto simp: parse_def split: sum.splits option.splits if_splits)

lemma parse_tokenized:
  assumes tk: "tokenize lx = Inr toks" and pr: "parse (Parser_init toks) = Inr e"
  shows "inorder e = map symbol_of (butlast toks)" and "binds_tighter e" and "groups_left e"
proof -
  let ?ps = "Parser_init toks"
  from pr obtain ps' where pe: "parse_expression ?ps = Inr (e, ps')"
    and eof: "\<forall>t. current_token ps' = Some t \<longrightarrow> tok_type t = EOF"
    by (rule parse_InrE)
  from tokenize_shape [OF tk] have ib: "in_bounds ?ps"
    and nb: "list_all (\<lambda>x. tok_type x \<noteq> EOF) (butlast toks)"
    by (simp_all add: in_bounds_Parser_init)
  from parse_reads(1) [of ?ps] pe have adv: "advanced ?ps ps'"
    and io: "inorder e = consumed ?ps ps'" by simp_all
  from adv have tks: "ps_tokens ps' = toks" by (simp add: advanced_def Parser_init_def)
  from parse_in_bounds(1) [of ?ps] ib pe have "in_bounds ps'" by simp
  then obtain t where ct: "current_token ps' = Some t" by (auto dest: in_bounds_current)
  with eof have "tok_type t = EOF" by simp
  with nb ct tks have "ps_position ps' = length toks - 1"
    using eof_position [of ps' t] by simp
  with io show "inorder e = map symbol_of (butlast toks)"
    by (simp add: consumed_def Parser_init_def butlast_conv_take)
  from parse_shape(1) [of ?ps] pe show "binds_tighter e" and "groups_left e" by simp_all
qed

lemma parse_tokenized_error:
  assumes tk: "tokenize lx = Inr toks" and pr: "parse (Parser_init toks) = Inl err"
  shows "is_syntax_error err"
proof -
  let ?ps = "Parser_init toks"
  from tokenize_shape [OF tk] have ib: "in_bounds ?ps"
    by (simp_all add: in_bounds_Parser_init)
  show ?thesis
  proof (cases "parse_expression ?ps")
    case (Inl e')
    with pr have "err = e'" by (simp add: parse_def)
    with parse_in_bounds(1) [of ?ps] ib Inl show ?thesis by simp
  next
    case (Inr b)
    with pr show ?thesis
      by (auto simp: parse_def split: prod.splits option.splits if_splits)
  qed
qed


lemma parse_expression_from_string_Inr:
  assumes "parse_expression_from_string s = Inr e"
  shows "\<exists>toks. tokenize (Lexer_init s) = Inr toks \<and> inorder e = map symbol_of (butlast toks)"
    and "binds_tighter e" and "groups_left e"
proof -
  from assms obtain toks where tk: "tokenize (Lexer_init s) = Inr toks"
    and pr: "parse (Parser_init toks) = Inr e"
    by (auto simp: parse_expression_from_string_def split: sum.splits)
  from parse_tokenized [OF tk pr]
  show "\<exists>toks. tokenize (Lexer_init s) = Inr toks \<and> inorder e = map symbol_of (butlast toks)"
    and "binds_tighter e" and "groups_left e"
    using tk by simp_all
qed

text \<open>The node an operator token of the additive or the multiplicative level builds.\<close>

fun node_of :: "TokenType \<Rightarrow> Expr \<Rightarrow> Expr \<Rightarrow> Expr" where
  "node_of PLUS l r = Add l r"
| "node_of MINUS l r = Minus l r"
| "node_of MULTIPLY l r = Multi l r"
| "node_of DIVIDE l r = Div l r"
| "node_of k l r = l"

lemma additive_over_multiplicative:
  assumes "ka = PLUS \<or> ka = MINUS" and "km = MULTIPLY \<or> km = DIVIDE"
  shows "parse (Parser_init [Token NUMBER a pa, Token ka va pb, Token NUMBER b pc, Token km vm pd,
            Token NUMBER c pe, Token EOF ve pf])
         = Inr (node_of ka (Num a) (node_of km (Num b) (Num c)))"
  using assms
  by (auto simp add: parse_def Parser_init_def parse_expression.simps parse_expression_loop.simps
      parse_term.simps parse_term_loop.simps parse_factor.simps current_token_def parser_advance_def)

lemma multiplicative_then_additive:
  assumes "ka = PLUS \<or> ka = MINUS" and "km = MULTIPLY \<or> km = DIVIDE"
  shows "parse (Parser_init [Token NUMBER a pa, Token km vm pb, Token NUMBER b pc, Token ka va pd,
            Token NUMBER c pe, Token EOF ve pf])
         = Inr (node_of ka (node_of km (Num a) (Num b)) (Num c))"
  using assms
  by (auto simp add: parse_def Parser_init_def parse_expression.simps parse_expression_loop.simps
      parse_term.simps parse_term_loop.simps parse_factor.simps current_token_def parser_advance_def)

text \<open>
  The loop of \<open>parse_expression\<close> as a fold: each operator token with the tree of the
  term behind it makes a node whose left operand is all that was folded before.
\<close>

definition fold_nodes :: "Expr \<Rightarrow> (TokenType \<times> Expr) list \<Rightarrow> Expr" where
  "fold_nodes first steps = foldl (\<lambda>acc (k, r). node_of k acc r) first steps"

lemma fold_nodes_Cons: "fold_nodes l ((k, r) # steps) = fold_nodes (node_of k l r) steps"
  by (simp add: fold_nodes_def)

lemma parse_term_remaining:
  assumes "current_token ps = Some op" and "parse_term (parser_advance ps) = Inr (r, ps2)"
  shows "remaining ps2 < remaining ps"
proof -
  from parse_reads(3) [of "parser_advance ps"] assms(2) have "advanced (parser_advance ps) ps2"
    by simp
  then have "remaining ps2 \<le> remaining (parser_advance ps)" by (rule remaining_advanced)
  with remaining_advance [OF assms(1)] show ?thesis by simp
qed

lemma parse_factor_remaining:
  assumes "current_token ps = Some op" and "parse_factor (parser_advance ps) = Inr (r, ps2)"
  shows "remaining ps2 < remaining ps"
proof -
  from parse_reads(5) [of "parser_advance ps"] assms(2) have "advanced (parser_advance ps) ps2"
    by simp
  then have "remaining ps2 \<le> remaining (parser_advance ps)" by (rule remaining_advanced)
  with remaining_advance [OF assms(1)] show ?thesis by simp
qed

lemma parse_expression_loop_fold:
  "parse_expression_loop left ps = Inr (e, ps') \<Longrightarrow>
     \<exists>steps. e = fold_nodes left steps
       \<and> list_all (\<lambda>(k, r). (k = PLUS \<or> k = MINUS) \<and> \<not> is_additive r) steps"
proof (induction "remaining ps" arbitrary: left ps rule: less_induct)
  case less
  from less.prems show ?case
  proof (cases rule: parse_expression_loop_InrE)
    case stop
    then show ?thesis by (intro exI [of _ "[]"]) (simp add: fold_nodes_def)
  next
    case (step op right ps2)
    let ?left = "if tok_type op = PLUS then Add left right
              else if tok_type op = MINUS then Minus left right else left"
    from step(1,3) have "remaining ps2 < remaining ps" by (rule parse_term_remaining)
    from less.hyps [OF this step(4)] obtain steps where
      e: "e = fold_nodes ?left steps"
      and s: "list_all (\<lambda>(k, r). (k = PLUS \<or> k = MINUS) \<and> \<not> is_additive r) steps"
      by blast
    from step(2) have n: "?left = node_of (tok_type op) left right" by auto
    from parse_shape(3) [of "parser_advance ps"] step(3) have "\<not> is_additive right" by simp
    with e s n step(2) show ?thesis
      by (intro exI [of _ "(tok_type op, right) # steps"]) (simp add: fold_nodes_Cons)
  qed
qed

lemma parse_term_loop_fold:
  "parse_term_loop left ps = Inr (e, ps') \<Longrightarrow>
     \<exists>steps. e = fold_nodes left steps
       \<and> list_all (\<lambda>(k, r). (k = MULTIPLY \<or> k = DIVIDE)
            \<and> \<not> is_additive r \<and> \<not> is_multiplicative r) steps"
proof (induction "remaining ps" arbitrary: left ps rule: less_induct)
  case less
  from less.prems show ?case
  proof (cases rule: parse_term_loop_InrE)
    case stop
    then show ?thesis by (intro exI [of _ "[]"]) (simp add: fold_nodes_def)
  next
    case (step op right ps2)
    let ?left = "if tok_type op = MULTIPLY then Multi left right
              else if tok_type op = DIVIDE then Div left right else left"
    from step(1,3) have "remaining ps2 < remaining ps" by (rule parse_factor_remaining)
    from less.hyps [OF this step(4)] obtain steps where
      e: "e = fold_nodes ?left steps"
      and s: "list_all (\<lambda>(k, r). (k = MULTIPLY \<or> k = DIVIDE)
            \<and> \<not> is_additive r \<and> \<not> is_multiplicative r) steps"
      by blast
    from step(2) have n: "?left = node_of (tok_type op) left right" by auto
    from parse_shape(5) [of "parser_advance ps"] step(3)
    have "\<not> is_additive right \<and> \<not> is_multiplicative right" by simp
    with e s n step(2) show ?thesis
      by (intro exI [of _ "(tok_type op, right) # steps"]) (simp add: fold_nodes_Cons)
  qed
qed

lemma parse_expression_fold:
  assumes "parse_expression ps = Inr (e, ps')"
  shows "\<exists>first steps. e = fold_nodes first steps \<and> \<not> is_additive first
       \<and> list_all (\<lambda>(k, r). (k = PLUS \<or> k = MINUS) \<and> \<not> is_additive r) steps"
proof -
  from assms obtain l ps1 where pt: "parse_term ps = Inr (l, ps1)"
    and lp: "parse_expression_loop l ps1 = Inr (e, ps')"
    by (rule parse_expression_InrE)
  from parse_shape(3) [of ps] pt have "\<not> is_additive l" by simp
  with parse_expression_loop_fold [OF lp] show ?thesis by blast
qed

lemma parse_term_fold:
  assumes "parse_term ps = Inr (e, ps')"
  shows "\<exists>first steps. e = fold_nodes first steps
       \<and> \<not> is_additive first \<and> \<not> is_multiplicative first
       \<and> list_all (\<lambda>(k, r). (k = MULTIPLY \<or> k = DIVIDE)
            \<and> \<not> is_additive r \<and> \<not> is_multiplicative r) steps"
proof -
  from assms obtain l ps1 where pf: "parse_factor ps = Inr (l, ps1)"
    and lp: "parse_term_loop l ps1 = Inr (e, ps')"
    by (rule parse_term_InrE)
  from parse_shape(5) [of ps] pf have "\<not> is_additive l \<and> \<not> is_multiplicative l" by simp
  with parse_term_loop_fold [OF lp] show ?thesis by blast
qed

lemma skip_whitespace_position_eq:
  "lx_position (skip_whitespace lx) = lx_position lx + length (takeWhile isspace (rest lx))"
  by (simp add: skip_whitespace_eq)

lemma get_next_token_position:
  "get_next_token lx = Inr (t, lx') \<Longrightarrow>
     lx_position lx \<le> tok_position t \<and> tok_position t \<le> lx_position lx'
     \<and> (tok_type t \<noteq> EOF \<longrightarrow> tok_position t < lx_position lx')"
proof (induction lx rule: get_next_token.induct)
  case (1 lx)
  show ?case
  proof (cases "current_char lx")
    case None
    with 1(2) show ?thesis by (subst (asm) get_next_token.simps) auto
  next
    case (Some c)
    show ?thesis
    proof (cases "isspace c")
      case True
      with Some 1(2) have "get_next_token (skip_whitespace lx) = Inr (t, lx')"
        by (subst (asm) get_next_token.simps) simp
      with 1(1) [OF Some True] skip_whitespace_position [of lx] show ?thesis by simp
    next
      case False
      show ?thesis
      proof (cases "isdigit c")
        case True
        with Some False 1(2) have r: "read_number lx = Inr (t, lx')"
          by (subst (asm) get_next_token.simps) simp
        from read_number_progress [OF r Some True] r show ?thesis
          by (auto simp: read_number_eq Let_def split: if_splits option.splits)
      next
        case nd: False
        with Some False 1(2) show ?thesis
          by (subst (asm) get_next_token.simps)
             (auto simp: lexer_advance_def split: if_splits)
      qed
    qed
  qed
qed

lemma tokenize_loop_sorted:
  "tokenize_loop lx ts = Inr toks \<Longrightarrow> sorted_wrt (<) (map tok_position ts) \<Longrightarrow>
     list_all (\<lambda>t. tok_position t < lx_position lx) ts \<Longrightarrow>
     sorted_wrt (<) (map tok_position toks)"
proof (induction lx ts arbitrary: toks rule: tokenize_loop.induct)
  case (1 lx ts)
  show ?case
  proof (cases "get_next_token lx")
    case (Inl e)
    with 1(2) show ?thesis by (subst (asm) tokenize_loop.simps) simp
  next
    case (Inr b)
    obtain t lx' where b: "b = (t, lx')" by (cases b)
    from Inr b have g: "get_next_token lx = Inr (t, lx')" by simp
    from get_next_token_position [OF g] have p1: "lx_position lx \<le> tok_position t"
      and p2: "tok_type t \<noteq> EOF \<longrightarrow> tok_position t < lx_position lx'" by simp_all
    from 1(3,4) p1 have srt: "sorted_wrt (<) (map tok_position (ts @ [t]))"
      by (auto simp: sorted_wrt_append list_all_iff)
    show ?thesis
    proof (cases "tok_type t = EOF")
      case True
      with g 1(2) have "toks = ts @ [t]" by (subst (asm) tokenize_loop.simps) simp
      with srt show ?thesis by simp
    next
      case False
      with g 1(2) have l: "tokenize_loop lx' (ts @ [t]) = Inr toks"
        by (subst (asm) tokenize_loop.simps) simp
      from get_next_token_progress [OF g False] have "lx_position lx < lx_position lx'" by simp
      with 1(4) p2 False have "list_all (\<lambda>t. tok_position t < lx_position lx') (ts @ [t])"
        by (auto simp: list_all_iff)
      from 1(1) [OF Inr b [symmetric] False l srt this] show ?thesis .
    qed
  qed
qed

lemma tokenize_sorted:
  "tokenize lx = Inr toks \<Longrightarrow> sorted_wrt (<) (map tok_position toks)"
  using tokenize_loop_sorted [of lx "[]" toks] by (simp add: tokenize_def)

section \<open>Precedence and associativity\<close>


abbreviation IntLit :: "int \<Rightarrow> Expr" where
  "IntLit n \<equiv> Num (NumberValue (PyInt n))"

lemma same_level_additive:
  assumes "k1 = PLUS \<or> k1 = MINUS" and "k2 = PLUS \<or> k2 = MINUS"
  shows "parse (Parser_init [Token NUMBER a pa, Token k1 v1 pb, Token NUMBER b pc, Token k2 v2 pd,
            Token NUMBER c pe, Token EOF ve pf])
         = Inr (node_of k2 (node_of k1 (Num a) (Num b)) (Num c))"
  using assms
  by (auto simp add: parse_def Parser_init_def parse_expression.simps parse_expression_loop.simps
      parse_term.simps parse_term_loop.simps parse_factor.simps current_token_def parser_advance_def)

lemma same_level_multiplicative:
  assumes "k1 = MULTIPLY \<or> k1 = DIVIDE" and "k2 = MULTIPLY \<or> k2 = DIVIDE"
  shows "parse (Parser_init [Token NUMBER a pa, Token k1 v1 pb, Token NUMBER b pc, Token k2 v2 pd,
            Token NUMBER c pe, Token EOF ve pf])
         = Inr (node_of k2 (node_of k1 (Num a) (Num b)) (Num c))"
  using assms
  by (auto simp add: parse_def Parser_init_def parse_expression.simps parse_expression_loop.simps
      parse_term.simps parse_term_loop.simps parse_factor.simps current_token_def parser_advance_def)

text \<open>
  C1. Where \<open>*\<close> or \<open>/\<close> stands beside \<open>+\<close> or \<open>-\<close> at one nesting level, the parser
  binds \<open>*\<close> and \<open>/\<close> tighter: the tree of every text that parses reads back in order as
  the tokens of the text, and no operand of a product or quotient in it is a sum or
  difference; for three numbers, \<open>a + b * c\<close> is the sum of \<open>a\<close> and the product, and
  \<open>a * b + c\<close> the sum of the product and \<open>c\<close>, for each additive and each multiplicative
  operator. The text \<open>2 + 3 * 4\<close> parses to \<open>Add 2 (Multi 3 4)\<close>, and that tree evaluates
  to 14.
\<close>

theorem multiplication_binds_tighter:
  "(parse_expression_from_string s = Inr e \<longrightarrow>
      (\<exists>toks. tokenize (Lexer_init s) = Inr toks \<and> inorder e = map symbol_of (butlast toks))
      \<and> binds_tighter e)
   \<and> ((ka = PLUS \<or> ka = MINUS) \<and> (km = MULTIPLY \<or> km = DIVIDE) \<longrightarrow>
        parse (Parser_init [Token NUMBER a pa, Token ka va pb, Token NUMBER b pc,
                 Token km vm pd, Token NUMBER c pe, Token EOF ve pf])
          = Inr (node_of ka (Num a) (node_of km (Num b) (Num c)))
        \<and> parse (Parser_init [Token NUMBER a pa, Token km vm pb, Token NUMBER b pc,
                 Token ka va pd, Token NUMBER c pe, Token EOF ve pf])
          = Inr (node_of ka (node_of km (Num a) (Num b)) (Num c)))
   \<and> parse_expression_from_string ''2 + 3 * 4''
        = Inr (Add (IntLit 2) (Multi (IntLit 3) (IntLit 4)))
   \<and> evaluate idiv (Add (IntLit 2) (Multi (IntLit 3) (IntLit 4))) = Inr (PyInt 14)"
proof (intro conjI impI)
  assume "parse_expression_from_string s = Inr e"
  then show "\<exists>toks. tokenize (Lexer_init s) = Inr toks \<and> inorder e = map symbol_of (butlast toks)"
    and "binds_tighter e"
    by (rule parse_expression_from_string_Inr)+
next
  assume k: "(ka = PLUS \<or> ka = MINUS) \<and> (km = MULTIPLY \<or> km = DIVIDE)"
  then show "parse (Parser_init [Token NUMBER a pa, Token ka va pb, Token NUMBER b pc,
                 Token km vm pd, Token NUMBER c pe, Token EOF ve pf])
          = Inr (node_of ka (Num a) (node_of km (Num b) (Num c)))"
    by (intro additive_over_multiplicative) simp_all
  from k show "parse (Parser_init [Token NUMBER a pa, Token km vm pb, Token NUMBER b pc,
                 Token ka va pd, Token NUMBER c pe, Token EOF ve pf])
          = Inr (node_of ka (node_of km (Num a) (Num b)) (Num c))"
    by (intro multiplicative_then_additive) simp_all
next
  show "parse_expression_from_string ''2 + 3 * 4''
        = Inr (Add (IntLit 2) (Multi (IntLit 3) (IntLit 4)))"
    by code_simp
next
  show "evaluate idiv (Add (IntLit 2) (Multi (IntLit 3) (IntLit 4))) = Inr (PyInt 14)"
    by simp
qed

theorem multiplication_binds_tighter_witness:
  "parse_expression_from_string ''6 - 4 / 2'' = Inr (Minus (IntLit 6) (Div (IntLit 4) (IntLit 2)))
   \<and> binds_tighter (Minus (IntLit 6) (Div (IntLit 4) (IntLit 2)))
   \<and> parse (Parser_init [Token NUMBER (NumberValue (PyInt 6)) 0, Token MINUS (StrValue ''-'') 2,
         Token NUMBER (NumberValue (PyInt 4)) 4, Token DIVIDE (StrValue ''/'') 6,
         Token NUMBER (NumberValue (PyInt 2)) 8, Token EOF NoneValue 9])
       = Inr (Minus (IntLit 6) (Div (IntLit 4) (IntLit 2)))"
proof -
  have h: "parse_expression_from_string ''6 - 4 / 2''
      = Inr (Minus (IntLit 6) (Div (IntLit 4) (IntLit 2)))"
    by code_simp
  have k: "(MINUS = PLUS \<or> MINUS = MINUS) \<and> (DIVIDE = MULTIPLY \<or> DIVIDE = DIVIDE)" by simp
  from h k multiplication_binds_tighter [of "''6 - 4 / 2''"
      "Minus (IntLit 6) (Div (IntLit 4) (IntLit 2))" MINUS DIVIDE
      "NumberValue (PyInt 6)" 0 "StrValue ''-''" 2 "NumberValue (PyInt 4)" 4
      "StrValue ''/''" 6 "NumberValue (PyInt 2)" 8 NoneValue 9]
  show ?thesis by simp
qed

text \<open>
  C2. A chain of operators of one level groups from the left: the tree of every text that
  parses reads back in order as the tokens of the text, and in it the right operand of a
  sum or difference is never a sum or difference, nor the right operand of a product or
  quotient a product or quotient; for three numbers and two operators of one level, the
  node of the first operator is the left operand of the node of the second. The tree
  \<open>parse_expression\<close> returns is the fold, from the left, of the terms it read with
  their \<open>+\<close> and \<open>-\<close> tokens, each node the left operand of the next; likewise the tree of
  \<open>parse_term\<close> with factors and \<open>*\<close> and \<open>/\<close>. The text \<open>8 - 3 - 2\<close> parses to
  \<open>Minus (Minus 8 3) 2\<close>, and that tree evaluates to 3.
\<close>

theorem same_level_groups_left:
  "(parse_expression_from_string s = Inr e \<longrightarrow>
      (\<exists>toks. tokenize (Lexer_init s) = Inr toks \<and> inorder e = map symbol_of (butlast toks))
      \<and> groups_left e)
   \<and> ((k1 = PLUS \<or> k1 = MINUS) \<and> (k2 = PLUS \<or> k2 = MINUS)
        \<or> (k1 = MULTIPLY \<or> k1 = DIVIDE) \<and> (k2 = MULTIPLY \<or> k2 = DIVIDE) \<longrightarrow>
        parse (Parser_init [Token NUMBER a pa, Token k1 v1 pb, Token NUMBER b pc,
                 Token k2 v2 pd, Token NUMBER c pe, Token EOF ve pf])
          = Inr (node_of k2 (node_of k1 (Num a) (Num b)) (Num c)))
   \<and> (parse_expression ps = Inr (e1, ps1) \<longrightarrow>
        (\<exists>first steps. e1 = fold_nodes first steps \<and> \<not> is_additive first
           \<and> list_all (\<lambda>(k, r). (k = PLUS \<or> k = MINUS) \<and> \<not> is_additive r) steps))
   \<and> (parse_term ps = Inr (e2, ps2) \<longrightarrow>
        (\<exists>first steps. e2 = fold_nodes first steps
           \<and> \<not> is_additive first \<and> \<not> is_multiplicative first
           \<and> list_all (\<lambda>(k, r). (k = MULTIPLY \<or> k = DIVIDE)
                \<and> \<not> is_additive r \<and> \<not> is_multiplicative r) steps))
   \<and> parse_expression_from_string ''8 - 3 - 2''
        = Inr (Minus (Minus (IntLit 8) (IntLit 3)) (IntLit 2))
   \<and> evaluate idiv (Minus (Minus (IntLit 8) (IntLit 3)) (IntLit 2)) = Inr (PyInt 3)"
proof (intro conjI impI)
  assume "parse_expression_from_string s = Inr e"
  then show "\<exists>toks. tokenize (Lexer_init s) = Inr toks \<and> inorder e = map symbol_of (butlast toks)"
    and "groups_left e"
    by (rule parse_expression_from_string_Inr)+
next
  assume "parse_expression ps = Inr (e1, ps1)"
  then show "\<exists>first steps. e1 = fold_nodes first steps \<and> \<not> is_additive first
           \<and> list_all (\<lambda>(k, r). (k = PLUS \<or> k = MINUS) \<and> \<not> is_additive r) steps"
    by (rule parse_expression_fold)
next
  assume "parse_term ps = Inr (e2, ps2)"
  then show "\<exists>first steps. e2 = fold_nodes first steps
           \<and> \<not> is_additive first \<and> \<not> is_multiplicative first
           \<and> list_all (\<lambda>(k, r). (k = MULTIPLY \<or> k = DIVIDE)
                \<and> \<not> is_additive r \<and> \<not> is_multiplicative r) steps"
    by (rule parse_term_fold)
next
  let ?chain = "parse (Parser_init [Token NUMBER a pa, Token k1 v1 pb, Token NUMBER b pc,
                 Token k2 v2 pd, Token NUMBER c pe, Token EOF ve pf])
          = Inr (node_of k2 (node_of k1 (Num a) (Num b)) (Num c))"
  assume "(k1 = PLUS \<or> k1 = MINUS) \<and> (k2 = PLUS \<or> k2 = MINUS)
        \<or> (k1 = MULTIPLY \<or> k1 = DIVIDE) \<and> (k2 = MULTIPLY \<or> k2 = DIVIDE)"
  then show ?chain
  proof (rule disjE)
    assume "(k1 = PLUS \<or> k1 = MINUS) \<and> (k2 = PLUS \<or> k2 = MINUS)"
    then show ?chain by (intro same_level_additive) simp_all
  next
    assume "(k1 = MULTIPLY \<or> k1 = DIVIDE) \<and> (k2 = MULTIPLY \<or> k2 = DIVIDE)"
    then show ?chain by (intro same_level_multiplicative) simp_all
  qed
next
  show "parse_expression_from_string ''8 - 3 - 2''
        = Inr (Minus (Minus (IntLit 8) (IntLit 3)) (IntLit 2))"
    by code_simp
next
  show "evaluate idiv (Minus (Minus (IntLit 8) (IntLit 3)) (IntLit 2)) = Inr (PyInt 3)"
    by simp
qed

theorem same_level_groups_left_witness:
  "parse_expression_from_string ''8 / 4 / 2'' = Inr (Div (Div (IntLit 8) (IntLit 4)) (IntLit 2))
   \<and> groups_left (Div (Div (IntLit 8) (IntLit 4)) (IntLit 2))
   \<and> parse (Parser_init [Token NUMBER (NumberValue (PyInt 8)) 0, Token DIVIDE (StrValue ''/'') 2,
         Token NUMBER (NumberValue (PyInt 4)) 4, Token DIVIDE (StrValue ''/'') 6,
         Token NUMBER (NumberValue (PyInt 2)) 8, Token EOF NoneValue 9])
       = Inr (Div (Div (IntLit 8) (IntLit 4)) (IntLit 2))
   \<and> (\<exists>first steps. Minus (Minus (IntLit 8) (IntLit 3)) (IntLit 2) = fold_nodes first steps
         \<and> \<not> is_additive first
         \<and> list_all (\<lambda>(k, r). (k = PLUS \<or> k = MINUS) \<and> \<not> is_additive r) steps)"
proof -
  let ?toks = "[Token NUMBER (NumberValue (PyInt 8)) 0, Token MINUS (StrValue ''-'') 2,
         Token NUMBER (NumberValue (PyInt 3)) 4, Token MINUS (StrValue ''-'') 6,
         Token NUMBER (NumberValue (PyInt 2)) 8, Token EOF NoneValue 9]"
  have h: "parse_expression_from_string ''8 / 4 / 2''
      = Inr (Div (Div (IntLit 8) (IntLit 4)) (IntLit 2))"
    by code_simp
  have k: "(DIVIDE = PLUS \<or> DIVIDE = MINUS) \<and> (DIVIDE = PLUS \<or> DIVIDE = MINUS)
        \<or> (DIVIDE = MULTIPLY \<or> DIVIDE = DIVIDE) \<and> (DIVIDE = MULTIPLY \<or> DIVIDE = DIVIDE)"
    by simp
  have f: "parse_expression (Parser_init ?toks) =
      Inr (Minus (Minus (IntLit 8) (IntLit 3)) (IntLit 2), \<lparr>ps_tokens = ?toks, ps_position = 5\<rparr>)"
    by (simp add: Parser_init_def parse_expression.simps parse_expression_loop.simps
        parse_term.simps parse_term_loop.simps parse_factor.simps current_token_def
        parser_advance_def)
  note t = same_level_groups_left [where s = "''8 / 4 / 2''"
      and e = "Div (Div (IntLit 8) (IntLit 4)) (IntLit 2)" and ?k1.0 = DIVIDE and ?k2.0 = DIVIDE
      and a = "NumberValue (PyInt 8)" and pa = 0 and ?v1.0 = "StrValue ''/''" and pb = 2
      and b = "NumberValue (PyInt 4)" and pc = 4 and ?v2.0 = "StrValue ''/''" and pd = 6
      and c = "NumberValue (PyInt 2)" and pe = 8 and ve = NoneValue and pf = 9
      and ps = "Parser_init ?toks" and ?e1.0 = "Minus (Minus (IntLit 8) (IntLit 3)) (IntLit 2)"
      and ?ps1.0 = "\<lparr>ps_tokens = ?toks, ps_position = 5\<rparr>"]
  from t f have "\<exists>first steps. Minus (Minus (IntLit 8) (IntLit 3)) (IntLit 2) = fold_nodes first steps
         \<and> \<not> is_additive first
         \<and> list_all (\<lambda>(k, r). (k = PLUS \<or> k = MINUS) \<and> \<not> is_additive r) steps"
    by blast
  with h k t show ?thesis by simp
qed

section \<open>Number literals\<close>

text \<open>The decimal numeral of a natural number, as \<open>str\<close> writes it.\<close>

fun digits_of :: "nat \<Rightarrow> string" where
  "digits_of n =
     (if n < 10 then [char_of (48 + n)]
      else digits_of (n div 10) @ [char_of (48 + n mod 10)])"

declare digits_of.simps [simp del]

lemma isdigit_not_space: "isdigit c \<Longrightarrow> \<not> isspace c"
  by (auto simp: isdigit_def isspace_def Let_def)

lemma decimal_value_snoc: "decimal_value (s @ [c]) = 10 * decimal_value s + digit_value c"
  by (simp add: decimal_value_def)

lemma of_char_digit: "k < 10 \<Longrightarrow> (of_char (char_of (48 + k :: nat)) :: nat) = 48 + k"
  by simp

lemma isdecimal_char_of: "k < 10 \<Longrightarrow> isdecimal (char_of (48 + k :: nat))"
  by (simp add: isdecimal_def of_char_digit Let_def del: of_char_of)

lemma digit_value_char_of: "k < 10 \<Longrightarrow> digit_value (char_of (48 + k :: nat)) = int k"
  by (simp add: digit_value_def of_char_digit del: of_char_of)

lemma digits_of_decimal: "digits_of n \<noteq> [] \<and> list_all isdecimal (digits_of n)"
proof (induction n rule: digits_of.induct)
  case (1 n)
  show ?case
  proof (cases "n < 10")
    case True
    then show ?thesis by (subst (1 2) digits_of.simps) (simp add: isdecimal_char_of)
  next
    case False
    with 1 show ?thesis
      by (subst (1 2) digits_of.simps) (simp add: isdecimal_char_of)
  qed
qed

lemma decimal_value_digits_of: "decimal_value (digits_of n) = int n"
proof (induction n rule: digits_of.induct)
  case (1 n)
  show ?case
  proof (cases "n < 10")
    case True
    then show ?thesis
      by (subst digits_of.simps) (simp add: decimal_value_def digit_value_char_of)
  next
    case False
    with 1 have "decimal_value (digits_of (n div 10)) = int (n div 10)" by simp
    moreover have "10 * int (n div 10) + int (n mod 10) = int n" by presburger
    ultimately show ?thesis using False
      by (subst digits_of.simps) (simp add: decimal_value_snoc digit_value_char_of)
  qed
qed

lemma lx_position_Lexer_init [simp]: "lx_position (Lexer_init s) = 0"
  by (simp add: Lexer_init_def)

lemma lx_text_Lexer_init [simp]: "lx_text (Lexer_init s) = s"
  by (simp add: Lexer_init_def)

lemma parse_single_number:
  "parse (Parser_init [Token NUMBER v p, Token EOF w q]) = Inr (Num v)"
  by (simp add: parse_def Parser_init_def parse_expression.simps parse_expression_loop.simps
      parse_term.simps parse_term_loop.simps parse_factor.simps current_token_def parser_advance_def)

lemma read_number_whole:
  assumes "list_all (\<lambda>c. isdigit c \<or> c = CHR ''.'') s"
  shows "read_number (Lexer_init s) =
     (if CHR ''.'' \<in> set s
      then (case py_float s of
              None \<Rightarrow> Inl (ConversionError s)
            | Some v \<Rightarrow> Inr (Token NUMBER v 0, (Lexer_init s)\<lparr>lx_position := length s\<rparr>))
      else (case py_int s of
              None \<Rightarrow> Inl (ConversionError s)
            | Some v \<Rightarrow> Inr (Token NUMBER (NumberValue (PyInt v)) 0,
                             (Lexer_init s)\<lparr>lx_position := length s\<rparr>)))"
proof -
  from assms have tw: "takeWhile (\<lambda>c. isdigit c \<or> c = CHR ''.'') s = s"
    by (simp add: takeWhile_eq_all_conv list_all_iff)
  show ?thesis
    by (simp only: read_number_eq Let_def rest_Lexer_init tw lx_position_Lexer_init)
       (simp split: option.splits)
qed

lemma tokenize_number:
  assumes "s \<noteq> []" and "isdigit (hd s)" and "list_all (\<lambda>c. isdigit c \<or> c = CHR ''.'') s"
    and "read_number (Lexer_init s) = Inr (t, lx')"
  shows "tokenize (Lexer_init s) = Inr [t, Token EOF NoneValue (length s)]"
    and "tok_type t = NUMBER"
proof -
  from assms(1) obtain c cs where s: "s = c # cs" by (cases s) auto
  with assms(2) have dc: "isdigit c" by simp
  then have nsp: "\<not> isspace c" by (rule isdigit_not_space)
  from assms(4) have lx': "lx' = (Lexer_init s)\<lparr>lx_position := length s\<rparr>"
    and ty: "tok_type t = NUMBER"
    by (auto simp: read_number_whole [OF assms(3)] split: if_splits option.splits)
  from s dc nsp assms(4) have g1: "get_next_token (Lexer_init s) = Inr (t, lx')"
    by (subst get_next_token_cases) simp
  have "rest lx' = []" by (simp add: lx' rest_def Lexer_init_def)
  then have g2: "get_next_token lx' = Inr (Token EOF NoneValue (length s), lx')"
    by (subst get_next_token_cases) (simp add: lx')
  from g1 g2 ty show "tokenize (Lexer_init s) = Inr [t, Token EOF NoneValue (length s)]"
    by (simp add: tokenize_def tokenize_loop.simps)
  from ty show "tok_type t = NUMBER" .
qed

lemma tokenize_number_error:
  assumes "s \<noteq> []" and "isdigit (hd s)" and "read_number (Lexer_init s) = Inl err"
  shows "tokenize (Lexer_init s) = Inl err" and "parse_expression_from_string s = Inl err"
proof -
  from assms(1) obtain c cs where s: "s = c # cs" by (cases s) auto
  with assms(2) have dc: "isdigit c" by simp
  then have nsp: "\<not> isspace c" by (rule isdigit_not_space)
  from s dc nsp assms(3) have "get_next_token (Lexer_init s) = Inl err"
    by (subst get_next_token_cases) simp
  then show "tokenize (Lexer_init s) = Inl err"
    by (simp add: tokenize_def tokenize_loop.simps)
  then show "parse_expression_from_string s = Inl err"
    by (simp add: parse_expression_from_string_def)
qed

lemma integer_literal:
  assumes "s \<noteq> []" and "list_all isdecimal s" and "length s \<le> int_max_str_digits"
  shows "parse_expression_from_string s = Inr (Num (NumberValue (PyInt (decimal_value s))))"
proof -
  from assms have hd: "isdigit (hd s)"
    by (cases s) (auto dest: isdecimal_isdigit)
  from assms(2) have all: "list_all (\<lambda>c. isdigit c \<or> c = CHR ''.'') s"
    by (auto simp: list_all_iff dest: isdecimal_isdigit)
  from assms(2) have nodot: "CHR ''.'' \<notin> set s" by (rule decimal_no_dot)
  from assms have "py_int s = Some (decimal_value s)" by (simp add: py_int_def)
  with nodot have "read_number (Lexer_init s) =
      Inr (Token NUMBER (NumberValue (PyInt (decimal_value s))) 0,
           (Lexer_init s)\<lparr>lx_position := length s\<rparr>)"
    by (simp add: read_number_whole [OF all])
  from tokenize_number(1) [OF assms(1) hd all this] show ?thesis
    by (simp add: parse_expression_from_string_def parse_single_number)
qed

lemma long_integer_literal:
  assumes "list_all isdecimal s" and "int_max_str_digits < length s"
  shows "tokenize (Lexer_init s) = Inl (ConversionError s)"
    and "parse_expression_from_string s = Inl (ConversionError s)"
proof -
  from assms(2) have ne: "s \<noteq> []" by auto
  with assms(1) have hd: "isdigit (hd s)"
    by (cases s) (auto dest: isdecimal_isdigit)
  from assms(1) have all: "list_all (\<lambda>c. isdigit c \<or> c = CHR ''.'') s"
    by (auto simp: list_all_iff dest: isdecimal_isdigit)
  from assms(1) have nodot: "CHR ''.'' \<notin> set s" by (rule decimal_no_dot)
  from assms(2) have "py_int s = None" by (simp add: py_int_def)
  with nodot have "read_number (Lexer_init s) = Inl (ConversionError s)"
    by (simp add: read_number_whole [OF all])
  with ne hd show "tokenize (Lexer_init s) = Inl (ConversionError s)"
    and "parse_expression_from_string s = Inl (ConversionError s)"
    by (rule tokenize_number_error)+
qed

lemma length_digits_of: "0 < k \<Longrightarrow> n < 10 ^ k \<Longrightarrow> length (digits_of n) \<le> k"
proof (induction n arbitrary: k rule: digits_of.induct)
  case (1 n)
  show ?case
  proof (cases "n < 10")
    case True
    with 1(2) show ?thesis by (subst digits_of.simps) simp
  next
    case False
    with 1(3) have "1 < k" by (cases "k = 1") (use 1(2) in auto)
    then obtain j where k: "k = Suc j" and j: "0 < j" by (cases k) auto
    from 1(3) k have "n div 10 < 10 ^ j" by (simp add: less_mult_imp_div_less mult.commute)
    from 1(1) [OF False j this] False k show ?thesis
      by (subst digits_of.simps) simp
  qed
qed

lemma py_float_literal:
  assumes "a \<noteq> []" and "list_all isdecimal a" and "list_all isdecimal b"
  shows "py_float (a @ CHR ''.'' # b)
     = Some (float_value (nat (decimal_value (a @ b))) (10 ^ length b))"
proof -
  from assms(2) have "CHR ''.'' \<notin> set a" by (rule decimal_no_dot)
  then have nd: "\<And>x. x \<in> set a \<Longrightarrow> x \<noteq> CHR ''.''" by auto
  have "takeWhile (\<lambda>c. c \<noteq> CHR ''.'') (a @ CHR ''.'' # b) = a"
    and "dropWhile (\<lambda>c. c \<noteq> CHR ''.'') (a @ CHR ''.'' # b) = CHR ''.'' # b"
    using nd by (simp_all add: takeWhile_append2 dropWhile_append2)
  with assms show ?thesis by (simp add: py_float_def)
qed

lemma decimal_literal:
  assumes "a \<noteq> []" and "list_all isdecimal a" and "list_all isdecimal b"
  shows "parse_expression_from_string (a @ CHR ''.'' # b) =
     Inr (Num (float_value (nat (decimal_value (a @ b))) (10 ^ length b)))"
proof -
  let ?s = "a @ CHR ''.'' # b"
  have ne: "?s \<noteq> []" by simp
  from assms(1,2) have hd: "isdigit (hd ?s)"
    by (cases a) (auto dest: isdecimal_isdigit)
  from assms(2,3) have all: "list_all (\<lambda>c. isdigit c \<or> c = CHR ''.'') ?s"
    by (auto simp: list_all_iff dest: isdecimal_isdigit)
  have "read_number (Lexer_init ?s) =
      Inr (Token NUMBER (float_value (nat (decimal_value (a @ b))) (10 ^ length b)) 0,
           (Lexer_init ?s)\<lparr>lx_position := length ?s\<rparr>)"
    by (simp add: read_number_whole [OF all] py_float_literal [OF assms])
  from tokenize_number(1) [OF ne hd all this] show ?thesis
    by (simp add: parse_expression_from_string_def parse_single_number)
qed

lemma float_value_tenth:
  "float_value 1 10 = NumberValue (PyFloat (3602879701896397 / 36028797018963968))"
  by (simp add: float_value_def bit_length.simps round_half_even_def Let_def)

lemma float_value_quarters: "float_value 325 100 = NumberValue (PyFloat (13 / 4))"
  by (simp add: float_value_def bit_length.simps round_half_even_def Let_def)

text \<open>
  C3, as far as it holds. \<open>read_number\<close> takes the whole run of digits and full stops
  from the offset on, however many full stops it holds, and passes it to \<open>float\<close> when
  it holds a full stop and to \<open>int\<close> otherwise; what the conversion returns is the value
  of the token, which carries the offset where the run starts and leaves the lexer behind
  the run, and when the conversion raises, \<open>read_number\<close> fails with its error. So a text
  of decimal digits, 4300 at most, parses to the literal of its exact integer (the numeral
  of \<open>n\<close> to \<open>n\<close>), and digits, a full stop and digits parse to the literal of the float
  nearest to the decimal fraction they write: \<open>3.25\<close> to thirteen quarters, \<open>0.1\<close> to the
  double next to one tenth.
\<close>

theorem read_number_converts_run:
  "read_number lx =
     (let run = takeWhile (\<lambda>c. isdigit c \<or> c = CHR ''.'') (rest lx);
          lx' = lx\<lparr>lx_position := lx_position lx + length run\<rparr>
      in if CHR ''.'' \<in> set run
         then (case py_float run of
                 None \<Rightarrow> Inl (ConversionError run)
               | Some v \<Rightarrow> Inr (Token NUMBER v (lx_position lx), lx'))
         else (case py_int run of
                 None \<Rightarrow> Inl (ConversionError run)
               | Some v \<Rightarrow> Inr (Token NUMBER (NumberValue (PyInt v)) (lx_position lx), lx')))
   \<and> (s \<noteq> [] \<and> list_all isdecimal s \<and> length s \<le> int_max_str_digits \<longrightarrow>
        parse_expression_from_string s = Inr (IntLit (decimal_value s)))
   \<and> (n < 10 ^ int_max_str_digits \<longrightarrow>
        parse_expression_from_string (digits_of n) = Inr (IntLit (int n)))
   \<and> (a \<noteq> [] \<and> list_all isdecimal a \<and> list_all isdecimal b \<longrightarrow>
        parse_expression_from_string (a @ ''.'' @ b) =
          Inr (Num (float_value (nat (decimal_value (a @ b))) (10 ^ length b))))
   \<and> parse_expression_from_string ''3.25'' = Inr (Num (NumberValue (PyFloat (13 / 4))))
   \<and> parse_expression_from_string ''0.1''
        = Inr (Num (NumberValue (PyFloat (3602879701896397 / 36028797018963968))))"
proof (intro conjI impI)
  show "read_number lx =
     (let run = takeWhile (\<lambda>c. isdigit c \<or> c = CHR ''.'') (rest lx);
          lx' = lx\<lparr>lx_position := lx_position lx + length run\<rparr>
      in if CHR ''.'' \<in> set run
         then (case py_float run of
                 None \<Rightarrow> Inl (ConversionError run)
               | Some v \<Rightarrow> Inr (Token NUMBER v (lx_position lx), lx'))
         else (case py_int run of
                 None \<Rightarrow> Inl (ConversionError run)
               | Some v \<Rightarrow> Inr (Token NUMBER (NumberValue (PyInt v)) (lx_position lx), lx')))"
    by (rule read_number_eq)
next
  assume "s \<noteq> [] \<and> list_all isdecimal s \<and> length s \<le> int_max_str_digits"
  then show "parse_expression_from_string s = Inr (IntLit (decimal_value s))"
    by (simp add: integer_literal)
next
  assume n: "n < 10 ^ int_max_str_digits"
  have "0 < int_max_str_digits" by (simp add: int_max_str_digits_def)
  from this n have "length (digits_of n) \<le> int_max_str_digits"
    by (rule length_digits_of)
  with digits_of_decimal [of n]
  have "parse_expression_from_string (digits_of n) = Inr (IntLit (decimal_value (digits_of n)))"
    by (simp add: integer_literal)
  then show "parse_expression_from_string (digits_of n) = Inr (IntLit (int n))"
    by (simp add: decimal_value_digits_of)
next
  assume "a \<noteq> [] \<and> list_all isdecimal a \<and> list_all isdecimal b"
  then show "parse_expression_from_string (a @ ''.'' @ b) =
          Inr (Num (float_value (nat (decimal_value (a @ b))) (10 ^ length b)))"
    using decimal_literal [of a b] by simp
next
  have "parse_expression_from_string (''3'' @ CHR ''.'' # ''25'') =
      Inr (Num (float_value (nat (decimal_value (''3'' @ ''25''))) (10 ^ length ''25'')))"
    by (rule decimal_literal) (simp_all add: isdecimal_def)
  then show "parse_expression_from_string ''3.25'' = Inr (Num (NumberValue (PyFloat (13 / 4))))"
    using float_value_quarters by (simp add: decimal_value_def digit_value_def)
next
  have "parse_expression_from_string (''0'' @ CHR ''.'' # ''1'') =
      Inr (Num (float_value (nat (decimal_value (''0'' @ ''1''))) (10 ^ length ''1'')))"
    by (rule decimal_literal) (simp_all add: isdecimal_def)
  then show "parse_expression_from_string ''0.1''
        = Inr (Num (NumberValue (PyFloat (3602879701896397 / 36028797018963968))))"
    using float_value_tenth by (simp add: decimal_value_def digit_value_def)
qed

theorem read_number_converts_run_witness:
  "parse_expression_from_string ''42'' = Inr (IntLit 42)
   \<and> parse_expression_from_string (digits_of 7) = Inr (IntLit 7)
   \<and> parse_expression_from_string ''1.'' = Inr (Num (float_value 1 1))"
proof -
  have i: "''42'' \<noteq> [] \<and> list_all isdecimal ''42'' \<and> length ''42'' \<le> int_max_str_digits"
    by (simp add: isdecimal_def int_max_str_digits_def)
  have "(7::nat) < 10 ^ 1" by simp
  also have "(10::nat) ^ 1 \<le> 10 ^ int_max_str_digits"
    by (rule power_increasing) (simp_all add: int_max_str_digits_def)
  finally have n: "(7::nat) < 10 ^ int_max_str_digits" .
  have f: "''1'' \<noteq> [] \<and> list_all isdecimal ''1'' \<and> list_all isdecimal []"
    by (simp add: isdecimal_def)
  from read_number_converts_run [of "Lexer_init ''42''" "''42''" 7 "''1''" "[]"] i n f
  have "parse_expression_from_string ''42'' = Inr (IntLit (decimal_value ''42''))"
    and "parse_expression_from_string (digits_of 7) = Inr (IntLit (int 7))"
    and "parse_expression_from_string (''1'' @ ''.'' @ []) =
          Inr (Num (float_value (nat (decimal_value (''1'' @ []))) (10 ^ length ([] :: string))))"
    by blast+
  then show ?thesis by (simp add: decimal_value_def digit_value_def)
qed

text \<open>
  The run \<open>1.2.3\<close> is read whole and \<open>float\<close> rejects it; a run of 4301 digits is read
  whole and \<open>int\<close> rejects it; and the literal of \<open>0.1\<close> holds the double next to one
  tenth, which is not one tenth.
\<close>

theorem read_number_converts_run_counterexample:
  "read_number (Lexer_init ''1.2.3+4'') = Inl (ConversionError ''1.2.3'')
   \<and> parse_expression_from_string ''1.2.3'' = Inl (ConversionError ''1.2.3'')
   \<and> parse_expression_from_string (replicate 4301 CHR ''1'')
        = Inl (ConversionError (replicate 4301 CHR ''1''))
   \<and> parse_expression_from_string ''0.1''
        = Inr (Num (NumberValue (PyFloat (3602879701896397 / 36028797018963968))))
   \<and> (3602879701896397 / 36028797018963968 :: rat) \<noteq> 1 / 10"
proof (intro conjI)
  show "read_number (Lexer_init ''1.2.3+4'') = Inl (ConversionError ''1.2.3'')"
    by code_simp
  show "parse_expression_from_string ''1.2.3'' = Inl (ConversionError ''1.2.3'')"
    by code_simp
  show "parse_expression_from_string (replicate 4301 CHR ''1'')
        = Inl (ConversionError (replicate 4301 CHR ''1''))"
    by (rule long_integer_literal)
       (simp_all add: list_all_iff isdecimal_def int_max_str_digits_def)
  have "parse_expression_from_string (''0'' @ CHR ''.'' # ''1'') =
      Inr (Num (float_value (nat (decimal_value (''0'' @ ''1''))) (10 ^ length ''1'')))"
    by (rule decimal_literal) (simp_all add: isdecimal_def)
  then show "parse_expression_from_string ''0.1''
        = Inr (Num (NumberValue (PyFloat (3602879701896397 / 36028797018963968))))"
    using float_value_tenth by (simp add: decimal_value_def digit_value_def)
  show "(3602879701896397 / 36028797018963968 :: rat) \<noteq> 1 / 10" by simp
qed

text \<open>
  C4. For every text, \<open>parse_expression_from_string\<close> either returns a tree that reads
  back in order as all the tokens of the text before the \<open>EOF\<close> token, or fails with an
  error raised in the lexer or one raised in the parser: there is no other outcome, and
  \<open>parse_factor\<close> never meets a missing current token. The text \<open>3..5\<close> fails in the
  lexer, with the error of the conversion of the lexeme \<open>3..5\<close>.
\<close>

theorem parse_string_tree_or_error:
  "((\<exists>e toks. parse_expression_from_string s = Inr e \<and> tokenize (Lexer_init s) = Inr toks
        \<and> inorder e = map symbol_of (butlast toks))
    \<or> (\<exists>err. parse_expression_from_string s = Inl err
        \<and> (is_lexical_error err \<or> is_syntax_error err)))
   \<and> parse_expression_from_string s \<noteq> Inl AttributeError
   \<and> parse_expression_from_string ''3..5'' = Inl (ConversionError ''3..5'')
   \<and> is_lexical_error (ConversionError ''3..5'')"
proof (intro conjI)
  show "(\<exists>e toks. parse_expression_from_string s = Inr e \<and> tokenize (Lexer_init s) = Inr toks
        \<and> inorder e = map symbol_of (butlast toks))
    \<or> (\<exists>err. parse_expression_from_string s = Inl err
        \<and> (is_lexical_error err \<or> is_syntax_error err))"
  proof (cases "tokenize (Lexer_init s)")
    case (Inl err)
    then have "is_lexical_error err"
      by (auto simp: tokenize_def dest: tokenize_loop_error)
    with Inl show ?thesis by (simp add: parse_expression_from_string_def)
  next
    case (Inr toks)
    show ?thesis
    proof (cases "parse (Parser_init toks)")
      case pl: (Inl err)
      with Inr have "is_syntax_error err" by (rule parse_tokenized_error)
      with Inr pl show ?thesis by (simp add: parse_expression_from_string_def)
    next
      case pr: (Inr e)
      with Inr have "inorder e = map symbol_of (butlast toks)" by (rule parse_tokenized)
      with Inr pr show ?thesis by (simp add: parse_expression_from_string_def)
    qed
  qed
  then show "parse_expression_from_string s \<noteq> Inl AttributeError" by auto
next
  show "parse_expression_from_string ''3..5'' = Inl (ConversionError ''3..5'')"
    by code_simp
next
  show "is_lexical_error (ConversionError ''3..5'')" by simp
qed


section \<open>Errors of the lexer and the parser\<close>

lemma parse_division:
  "parse (Parser_init [Token NUMBER a pa, Token DIVIDE v pb, Token NUMBER b pc, Token EOF w pd])
     = Inr (Div (Num a) (Num b))"
  by (simp add: parse_def Parser_init_def parse_expression.simps parse_expression_loop.simps
      parse_term.simps parse_term_loop.simps parse_factor.simps current_token_def parser_advance_def)

text \<open>
  C5. Division by zero is found when a tree is evaluated, not when it is built: two
  number tokens around a \<open>/\<close> token parse to a \<open>Div\<close> node whatever the numbers are, and
  the text \<open>5 / 0\<close> parses to \<open>Div 5 0\<close>. Evaluating a \<open>Div\<close> node whose right operand
  evaluates to zero, integer or decimal, yields no value, and fails with the
  division-by-zero condition when the left operand has a value.
\<close>

theorem division_by_zero_at_evaluation:
  "parse (Parser_init [Token NUMBER a pa, Token DIVIDE v pb, Token NUMBER b pc, Token EOF w pd])
     = Inr (Div (Num a) (Num b))
   \<and> parse_expression_from_string ''5 / 0'' = Inr (Div (IntLit 5) (IntLit 0))
   \<and> (evaluate idiv r = Inr z \<and> to_rat z = 0 \<longrightarrow>
        (\<forall>x. evaluate idiv (Div l r) \<noteq> Inr x)
        \<and> (\<forall>y. evaluate idiv l = Inr y \<longrightarrow> evaluate idiv (Div l r) = Inl DivisionByZero))
   \<and> evaluate idiv (Div (IntLit 5) (IntLit 0)) = Inl DivisionByZero
   \<and> evaluate idiv (Div (IntLit 5) (Num (NumberValue (PyFloat 0)))) = Inl DivisionByZero"
proof (intro conjI impI allI)
  show "parse (Parser_init [Token NUMBER a pa, Token DIVIDE v pb, Token NUMBER b pc, Token EOF w pd])
     = Inr (Div (Num a) (Num b))"
    by (rule parse_division)
next
  show "parse_expression_from_string ''5 / 0'' = Inr (Div (IntLit 5) (IntLit 0))"
    by code_simp
next
  fix x
  assume "evaluate idiv r = Inr z \<and> to_rat z = 0"
  then show "evaluate idiv (Div l r) \<noteq> Inr x"
    by (cases "evaluate idiv l") simp_all
next
  fix y
  assume "evaluate idiv r = Inr z \<and> to_rat z = 0" and "evaluate idiv l = Inr y"
  then show "evaluate idiv (Div l r) = Inl DivisionByZero" by simp
next
  show "evaluate idiv (Div (IntLit 5) (IntLit 0)) = Inl DivisionByZero" by simp
next
  show "evaluate idiv (Div (IntLit 5) (Num (NumberValue (PyFloat 0)))) = Inl DivisionByZero"
    by simp
qed

theorem division_by_zero_at_evaluation_witness:
  "evaluate (\<lambda>x y. PyFloat (of_int x / of_int y)) (Minus (IntLit 2) (IntLit 2)) = Inr (PyInt 0)
   \<and> evaluate (\<lambda>x y. PyFloat (of_int x / of_int y))
        (Div (IntLit 7) (Minus (IntLit 2) (IntLit 2))) = Inl DivisionByZero"
proof -
  let ?idiv = "\<lambda>x y. PyFloat (of_int x / of_int y)"
  have r: "evaluate ?idiv (Minus (IntLit 2) (IntLit 2)) = Inr (PyInt 0) \<and> to_rat (PyInt 0) = 0"
    by simp
  have l: "evaluate ?idiv (IntLit 7) = Inr (PyInt 7)" by simp
  from division_by_zero_at_evaluation [of "NumberValue (PyInt 5)" 0 "StrValue ''/''" 2
      "NumberValue (PyInt 0)" 4 NoneValue 5 ?idiv "Minus (IntLit 2) (IntLit 2)" "PyInt 0" "IntLit 7"] r l
  have "evaluate ?idiv (Div (IntLit 7) (Minus (IntLit 2) (IntLit 2))) = Inl DivisionByZero"
    by blast
  with r show ?thesis by simp
qed

lemma get_next_token_invalid:
  assumes "rest lx = ws @ c # cs" and "list_all isspace ws" and "\<not> recognized c"
  shows "get_next_token lx = Inl (InvalidCharacter c (lx_position lx + length ws))"
proof -
  from assms(3) have nsp: "\<not> isspace c" and nd: "\<not> isdigit c" and nop: "\<not> is_operator_char c"
    by (simp_all add: recognized_def)
  have direct: "get_next_token lx' = Inl (InvalidCharacter c (lx_position lx'))"
    if "rest lx' = c # cs" for lx'
    using that nsp nd nop
    by (subst get_next_token_cases) (auto simp: is_operator_char_def)
  show ?thesis
  proof (cases ws)
    case Nil
    with assms(1) direct [of lx] show ?thesis by simp
  next
    case (Cons w ws')
    with assms(2) have w: "isspace w" by simp
    from assms(2) nsp have tw: "takeWhile isspace (ws @ c # cs) = ws"
      by (simp add: takeWhile_append2 list_all_iff)
    let ?lx = "lx\<lparr>lx_position := lx_position lx + length ws\<rparr>"
    from assms(1) tw have sk: "skip_whitespace lx = ?lx" by (simp add: skip_whitespace_eq)
    from assms(1) have "rest ?lx = c # cs" by (simp add: rest_shift)
    from direct [OF this] have "get_next_token ?lx = Inl (InvalidCharacter c (lx_position lx + length ws))"
      by simp
    with assms(1) Cons w sk show ?thesis
      by (subst get_next_token_cases) simp
  qed
qed

lemma rest_nth:
  assumes "rest lx = ws @ c # cs"
  shows "lx_position lx + length ws < length (lx_text lx)"
    and "lx_text lx ! (lx_position lx + length ws) = c"
proof -
  from assms have d: "drop (lx_position lx) (lx_text lx) = ws @ c # cs" by (simp add: rest_def)
  then have "length (drop (lx_position lx) (lx_text lx)) = length ws + Suc (length cs)" by simp
  then show lt: "lx_position lx + length ws < length (lx_text lx)" by simp
  have "drop (lx_position lx) (lx_text lx) ! length ws = c" by (simp add: d)
  with lt show "lx_text lx ! (lx_position lx + length ws) = c" by simp
qed

text \<open>
  C6. When the next character behind any white space is not white space, not a digit
  and none of \<open>+ - * / ( )\<close>, \<open>get_next_token\<close> fails with the invalid-character error
  that carries this character and its offset in the text, counted from zero. Lexing
  \<open>3 & 4\<close> fails with \<open>&\<close> at offset 2.
\<close>

theorem invalid_character_reported:
  "(rest lx = ws @ c # cs \<and> list_all isspace ws \<and> \<not> recognized c \<longrightarrow>
      get_next_token lx = Inl (InvalidCharacter c (lx_position lx + length ws))
      \<and> lx_position lx + length ws < length (lx_text lx)
      \<and> lx_text lx ! (lx_position lx + length ws) = c)
   \<and> tokenize (Lexer_init ''3 & 4'') = Inl (InvalidCharacter CHR ''&'' 2)
   \<and> parse_expression_from_string ''3 & 4'' = Inl (InvalidCharacter CHR ''&'' 2)"
proof (intro conjI impI)
  assume h: "rest lx = ws @ c # cs \<and> list_all isspace ws \<and> \<not> recognized c"
  then show "get_next_token lx = Inl (InvalidCharacter c (lx_position lx + length ws))"
    by (intro get_next_token_invalid) simp_all
  from h show "lx_position lx + length ws < length (lx_text lx)"
    and "lx_text lx ! (lx_position lx + length ws) = c"
    using rest_nth [of lx ws c cs] by simp_all
next
  show "tokenize (Lexer_init ''3 & 4'') = Inl (InvalidCharacter CHR ''&'' 2)"
    by code_simp
next
  show "parse_expression_from_string ''3 & 4'' = Inl (InvalidCharacter CHR ''&'' 2)"
    by code_simp
qed

theorem invalid_character_reported_witness:
  "get_next_token \<lparr>lx_text = ''12  x'', lx_position = 2\<rparr> = Inl (InvalidCharacter CHR ''x'' 4)"
proof -
  have "rest \<lparr>lx_text = ''12  x'', lx_position = 2\<rparr> = ''  '' @ CHR ''x'' # []
      \<and> list_all isspace ''  '' \<and> \<not> recognized CHR ''x''"
    by (simp add: rest_def isspace_def recognized_def isdigit_def is_operator_char_def)
  with invalid_character_reported [of "\<lparr>lx_text = ''12  x'', lx_position = 2\<rparr>" "''  ''" "CHR ''x''" "[]"]
  show ?thesis by simp
qed


lemma expect_Inr_iff:
  "expect ps k = Inr (t, ps') \<longleftrightarrow>
     current_token ps = Some t \<and> tok_type t = k \<and> ps' = parser_advance ps"
  by (auto simp: expect_def split: option.splits)

lemma inj_TokenType_value: "inj TokenType_value"
proof (rule injI)
  fix x y
  assume "TokenType_value x = TokenType_value y"
  then show "x = y" by (cases x; cases y) simp_all
qed

lemma parse_factor_unclosed:
  assumes "current_token ps = Some lp" and "tok_type lp = LPAREN"
    and "parse_expression (parser_advance ps) = Inr (e, ps1)"
    and "current_token ps1 = Some u" and "tok_type u \<noteq> RPAREN"
  shows "parse_factor ps = Inl (ExpectedToken ''RPAREN'' (TokenType_value (tok_type u)))"
  using assms by (subst parse_factor.simps) (simp add: expect_def)

text \<open>
  C7. \<open>expect\<close> returns the current token and moves to the next one exactly when the
  current token has the kind asked for. Otherwise it fails with the error that names
  the kind asked for and the kind found, or \<open>EOF\<close> when there is no current token; the
  names tell the kinds apart. So a parenthesis whose expression is followed by a token
  other than \<open>)\<close> fails with this error for \<open>RPAREN\<close>, and the text \<open>(1 + 2\<close> fails
  with \<open>RPAREN\<close> expected and \<open>EOF\<close> found.
\<close>

theorem expect_consumes_or_reports:
  "(expect ps k = Inr (t, ps') \<longleftrightarrow>
      current_token ps = Some t \<and> tok_type t = k \<and> ps' = parser_advance ps)
   \<and> (current_token ps = Some t \<and> tok_type t \<noteq> k \<longrightarrow>
        expect ps k = Inl (ExpectedToken (TokenType_value k) (TokenType_value (tok_type t))))
   \<and> (current_token ps = None \<longrightarrow>
        expect ps k = Inl (ExpectedToken (TokenType_value k) ''EOF''))
   \<and> inj TokenType_value
   \<and> (current_token ps = Some lp \<and> tok_type lp = LPAREN
        \<and> parse_expression (parser_advance ps) = Inr (e, ps1)
        \<and> current_token ps1 = Some u \<and> tok_type u \<noteq> RPAREN \<longrightarrow>
        parse_factor ps = Inl (ExpectedToken ''RPAREN'' (TokenType_value (tok_type u))))
   \<and> parse_expression_from_string ''(1 + 2'' = Inl (ExpectedToken ''RPAREN'' ''EOF'')"
proof (intro conjI impI)
  show "expect ps k = Inr (t, ps') \<longleftrightarrow>
      current_token ps = Some t \<and> tok_type t = k \<and> ps' = parser_advance ps"
    by (rule expect_Inr_iff)
next
  assume "current_token ps = Some t \<and> tok_type t \<noteq> k"
  then show "expect ps k = Inl (ExpectedToken (TokenType_value k) (TokenType_value (tok_type t)))"
    by (simp add: expect_def)
next
  assume "current_token ps = None"
  then show "expect ps k = Inl (ExpectedToken (TokenType_value k) ''EOF'')"
    by (simp add: expect_def)
next
  show "inj TokenType_value" by (rule inj_TokenType_value)
next
  assume "current_token ps = Some lp \<and> tok_type lp = LPAREN
        \<and> parse_expression (parser_advance ps) = Inr (e, ps1)
        \<and> current_token ps1 = Some u \<and> tok_type u \<noteq> RPAREN"
  then show "parse_factor ps = Inl (ExpectedToken ''RPAREN'' (TokenType_value (tok_type u)))"
    by (intro parse_factor_unclosed [of ps lp e ps1 u]) simp_all
next
  show "parse_expression_from_string ''(1 + 2'' = Inl (ExpectedToken ''RPAREN'' ''EOF'')"
    by code_simp
qed

theorem expect_consumes_or_reports_witness:
  "expect (Parser_init [Token PLUS (StrValue ''+'') 0, Token EOF NoneValue 1]) RPAREN
     = Inl (ExpectedToken ''RPAREN'' ''PLUS'')
   \<and> expect \<lparr>ps_tokens = [Token EOF NoneValue 0], ps_position = 1\<rparr> RPAREN
     = Inl (ExpectedToken ''RPAREN'' ''EOF'')
   \<and> parse_factor (Parser_init [Token LPAREN (StrValue ''('') 0,
        Token NUMBER (NumberValue (PyInt 1)) 1, Token EOF NoneValue 2])
     = Inl (ExpectedToken ''RPAREN'' ''EOF'')"
proof -
  let ?p = "Parser_init [Token PLUS (StrValue ''+'') 0, Token EOF NoneValue 1]"
  let ?q = "\<lparr>ps_tokens = [Token EOF NoneValue 0], ps_position = 1\<rparr>"
  let ?r = "Parser_init [Token LPAREN (StrValue ''('') 0,
        Token NUMBER (NumberValue (PyInt 1)) 1, Token EOF NoneValue 2]"
  let ?r1 = "\<lparr>ps_tokens = [Token LPAREN (StrValue ''('') 0,
        Token NUMBER (NumberValue (PyInt 1)) 1, Token EOF NoneValue 2], ps_position = 2\<rparr>"
  have a: "current_token ?p = Some (Token PLUS (StrValue ''+'') 0)
      \<and> tok_type (Token PLUS (StrValue ''+'') 0) \<noteq> RPAREN"
    by (simp add: current_token_def Parser_init_def)
  have b: "current_token ?q = None" by (simp add: current_token_def)
  have c: "current_token ?r = Some (Token LPAREN (StrValue ''('') 0)
        \<and> tok_type (Token LPAREN (StrValue ''('') 0) = LPAREN
        \<and> parse_expression (parser_advance ?r) = Inr (IntLit 1, ?r1)
        \<and> current_token ?r1 = Some (Token EOF NoneValue 2)
        \<and> tok_type (Token EOF NoneValue 2) \<noteq> RPAREN"
    by (simp add: current_token_def Parser_init_def parser_advance_def parse_expression.simps
        parse_expression_loop.simps parse_term.simps parse_term_loop.simps parse_factor.simps)
  from a expect_consumes_or_reports [of ?p RPAREN "Token PLUS (StrValue ''+'') 0"]
  have "expect ?p RPAREN = Inl (ExpectedToken ''RPAREN'' ''PLUS'')" by simp
  moreover from b expect_consumes_or_reports [of ?q RPAREN]
  have "expect ?q RPAREN = Inl (ExpectedToken ''RPAREN'' ''EOF'')" by simp
  moreover from c expect_consumes_or_reports [of ?r _ _ _ "Token LPAREN (StrValue ''('') 0"
      "IntLit 1" ?r1 "Token EOF NoneValue 2"]
  have "parse_factor ?r = Inl (ExpectedToken ''RPAREN'' ''EOF'')" by simp
  ultimately show ?thesis by simp
qed

lemma parse_trailing:
  assumes "parse_expression ps = Inr (e, ps')" and "current_token ps' = Some t"
    and "tok_type t \<noteq> EOF"
  shows "parse ps = Inl (UnexpectedToken t)"
  using assms by (simp add: parse_def)

lemma parse_Inr_iff:
  assumes "in_bounds ps"
  shows "parse ps = Inr e \<longleftrightarrow>
     (\<exists>ps' t. parse_expression ps = Inr (e, ps') \<and> current_token ps' = Some t \<and> tok_type t = EOF)"
proof
  assume "parse ps = Inr e"
  then obtain ps' where pe: "parse_expression ps = Inr (e, ps')"
    and eof: "\<forall>t. current_token ps' = Some t \<longrightarrow> tok_type t = EOF"
    by (rule parse_InrE)
  from parse_in_bounds(1) [of ps] assms pe have "in_bounds ps'" by simp
  then obtain t where "current_token ps' = Some t" by (auto dest: in_bounds_current)
  with pe eof show "\<exists>ps' t. parse_expression ps = Inr (e, ps') \<and> current_token ps' = Some t
      \<and> tok_type t = EOF" by auto
next
  assume "\<exists>ps' t. parse_expression ps = Inr (e, ps') \<and> current_token ps' = Some t \<and> tok_type t = EOF"
  then show "parse ps = Inr e" by (auto simp: parse_def)
qed

text \<open>
  C8. On a token list that ends with an \<open>EOF\<close> token, as every list of the lexer does,
  \<open>parse\<close> returns a tree exactly when \<open>parse_expression\<close> returns it and leaves the
  cursor at an \<open>EOF\<close> token. When \<open>parse_expression\<close> leaves the cursor at any other
  token, \<open>parse\<close> fails with the unexpected-token error for that token and returns no
  tree; so does the text \<open>1 2\<close>, at its second number.
\<close>

theorem parse_stops_at_end_of_input:
  "(tokenize (Lexer_init s) = Inr toks \<longrightarrow> in_bounds (Parser_init toks))
   \<and> (in_bounds ps \<longrightarrow>
        (parse ps = Inr e \<longleftrightarrow>
           (\<exists>ps' t. parse_expression ps = Inr (e, ps') \<and> current_token ps' = Some t
              \<and> tok_type t = EOF)))
   \<and> (parse_expression ps = Inr (e', ps1) \<and> current_token ps1 = Some u \<and> tok_type u \<noteq> EOF \<longrightarrow>
        parse ps = Inl (UnexpectedToken u))
   \<and> parse_expression_from_string ''1 2''
        = Inl (UnexpectedToken (Token NUMBER (NumberValue (PyInt 2)) 2))"
proof (intro conjI impI)
  assume "tokenize (Lexer_init s) = Inr toks"
  from tokenize_shape(1,2) [OF this] show "in_bounds (Parser_init toks)"
    by (rule in_bounds_Parser_init)
next
  assume "in_bounds ps"
  then show "parse ps = Inr e \<longleftrightarrow>
           (\<exists>ps' t. parse_expression ps = Inr (e, ps') \<and> current_token ps' = Some t
              \<and> tok_type t = EOF)"
    by (rule parse_Inr_iff)
next
  assume "parse_expression ps = Inr (e', ps1) \<and> current_token ps1 = Some u \<and> tok_type u \<noteq> EOF"
  then show "parse ps = Inl (UnexpectedToken u)"
    by (intro parse_trailing [of ps e' ps1 u]) simp_all
next
  show "parse_expression_from_string ''1 2''
        = Inl (UnexpectedToken (Token NUMBER (NumberValue (PyInt 2)) 2))"
    by code_simp
qed

theorem parse_stops_at_end_of_input_witness:
  "in_bounds (Parser_init [Token NUMBER (NumberValue (PyInt 7)) 0, Token EOF NoneValue 1])
   \<and> parse (Parser_init [Token NUMBER (NumberValue (PyInt 7)) 0, Token EOF NoneValue 1])
       = Inr (IntLit 7)
   \<and> (\<exists>ps' t. parse_expression (Parser_init [Token NUMBER (NumberValue (PyInt 7)) 0,
          Token EOF NoneValue 1]) = Inr (IntLit 7, ps') \<and> current_token ps' = Some t
          \<and> tok_type t = EOF)
   \<and> parse (Parser_init [Token NUMBER (NumberValue (PyInt 7)) 0,
        Token RPAREN (StrValue '')'') 1, Token EOF NoneValue 2])
       = Inl (UnexpectedToken (Token RPAREN (StrValue '')'') 1))"
proof -
  let ?p = "Parser_init [Token NUMBER (NumberValue (PyInt 7)) 0, Token EOF NoneValue 1]"
  let ?q = "Parser_init [Token NUMBER (NumberValue (PyInt 7)) 0,
        Token RPAREN (StrValue '')'') 1, Token EOF NoneValue 2]"
  let ?q1 = "\<lparr>ps_tokens = [Token NUMBER (NumberValue (PyInt 7)) 0,
        Token RPAREN (StrValue '')'') 1, Token EOF NoneValue 2], ps_position = 1\<rparr>"
  have tk: "tokenize (Lexer_init ''7'') = Inr [Token NUMBER (NumberValue (PyInt 7)) 0, Token EOF NoneValue 1]"
    by code_simp
  have ib: "in_bounds ?p" by (simp add: in_bounds_def Parser_init_def)
  have pr: "parse ?p = Inr (IntLit 7)" by (rule parse_single_number)
  have tr: "parse_expression ?q = Inr (IntLit 7, ?q1)
      \<and> current_token ?q1 = Some (Token RPAREN (StrValue '')'') 1)
      \<and> tok_type (Token RPAREN (StrValue '')'') 1) \<noteq> EOF"
    by (simp add: current_token_def Parser_init_def parser_advance_def parse_expression.simps
        parse_expression_loop.simps parse_term.simps parse_term_loop.simps parse_factor.simps)
  from parse_stops_at_end_of_input [of "''7''" "[Token NUMBER (NumberValue (PyInt 7)) 0, Token EOF NoneValue 1]"
      ?p "IntLit 7"] tk ib pr
  have "\<exists>ps' t. parse_expression ?p = Inr (IntLit 7, ps') \<and> current_token ps' = Some t
          \<and> tok_type t = EOF" by blast
  moreover from parse_stops_at_end_of_input [of _ _ ?q _ "IntLit 7" ?q1 "Token RPAREN (StrValue '')'') 1"] tr
  have "parse ?q = Inl (UnexpectedToken (Token RPAREN (StrValue '')'') 1))" by blast
  ultimately show ?thesis using ib pr by simp
qed


section \<open>The token sequence\<close>

text \<open>
  C9, as far as it holds. A text of white space, decimal digits \<open>0 .. 9\<close> and the
  characters \<open>+ - * / ( )\<close> only, with no more than 4300 digits in a row, is tokenized:
  \<open>tokenize\<close> returns a token list. And
  whenever \<open>tokenize\<close> returns a list, on any text, the last token of the list is an
  \<open>EOF\<close> token, no token before it is, and the tokens stand in the order of their
  offsets in the text.
\<close>

theorem tokenize_ends_with_eof:
  "(tokenizable s \<longrightarrow> (\<exists>toks. tokenize (Lexer_init s) = Inr toks))
   \<and> (tokenize lx = Inr toks \<longrightarrow>
        toks \<noteq> [] \<and> tok_type (last toks) = EOF
        \<and> list_all (\<lambda>t. tok_type t \<noteq> EOF) (butlast toks)
        \<and> sorted_wrt (<) (map tok_position toks))"
proof (intro conjI impI)
  assume "tokenizable s"
  then have "tokenizable (rest (Lexer_init s))" by simp
  then show "\<exists>toks. tokenize (Lexer_init s) = Inr toks"
    unfolding tokenize_def by (rule tokenize_loop_plain)
next
  assume t: "tokenize lx = Inr toks"
  from tokenize_shape [OF t] show "toks \<noteq> []" and "tok_type (last toks) = EOF"
    and "list_all (\<lambda>t. tok_type t \<noteq> EOF) (butlast toks)" .
  from t show "sorted_wrt (<) (map tok_position toks)" by (rule tokenize_sorted)
qed

theorem tokenize_ends_with_eof_witness:
  "(\<exists>toks. tokenize (Lexer_init ''(1 + 2) * 3'') = Inr toks)
   \<and> tok_type (last [Token NUMBER (NumberValue (PyInt 1)) 0, Token MINUS (StrValue ''-'') 1,
        Token NUMBER (NumberValue (PyInt 2)) 2, Token EOF NoneValue 3]) = EOF
   \<and> list_all (\<lambda>t. tok_type t \<noteq> EOF)
        (butlast [Token NUMBER (NumberValue (PyInt 1)) 0, Token MINUS (StrValue ''-'') 1,
           Token NUMBER (NumberValue (PyInt 2)) 2, Token EOF NoneValue 3])"
proof -
  have p: "tokenizable ''(1 + 2) * 3''"
    by code_simp
  have t: "tokenize (Lexer_init ''1-2'') =
      Inr [Token NUMBER (NumberValue (PyInt 1)) 0, Token MINUS (StrValue ''-'') 1,
        Token NUMBER (NumberValue (PyInt 2)) 2, Token EOF NoneValue 3]"
    by code_simp
  from tokenize_ends_with_eof [of "''(1 + 2) * 3''"] p
  have "\<exists>toks. tokenize (Lexer_init ''(1 + 2) * 3'') = Inr toks" by blast
  moreover from tokenize_ends_with_eof [of _ "Lexer_init ''1-2''"] t
  have "tok_type (last [Token NUMBER (NumberValue (PyInt 1)) 0, Token MINUS (StrValue ''-'') 1,
        Token NUMBER (NumberValue (PyInt 2)) 2, Token EOF NoneValue 3]) = EOF
   \<and> list_all (\<lambda>t. tok_type t \<noteq> EOF)
        (butlast [Token NUMBER (NumberValue (PyInt 1)) 0, Token MINUS (StrValue ''-'') 1,
           Token NUMBER (NumberValue (PyInt 2)) 2, Token EOF NoneValue 3])"
    by blast
  ultimately show ?thesis by blast
qed

text \<open>
  Without the two restrictions the first part fails. The text of the one character
  \<open>U+00B2\<close>, superscript two, holds only characters the dispatch of \<open>get_next_token\<close>
  has a branch for: \<open>isdigit\<close> holds of it. \<open>read_number\<close> reads it and \<open>int\<close> rejects
  it, so \<open>tokenize\<close> returns no token list. Nor does it on a text of 4301 decimal
  digits, which \<open>int\<close> rejects for its length.
\<close>

theorem tokenize_recognized_counterexample:
  "list_all recognized [CHR 0xB2]
   \<and> tokenize (Lexer_init [CHR 0xB2]) = Inl (ConversionError [CHR 0xB2])
   \<and> list_all recognized (replicate 4301 CHR ''1'')
   \<and> list_all plain (replicate 4301 CHR ''1'')
   \<and> tokenize (Lexer_init (replicate 4301 CHR ''1''))
        = Inl (ConversionError (replicate 4301 CHR ''1''))"
proof (intro conjI)
  show "list_all recognized [CHR 0xB2]" by (simp add: recognized_def isdigit_def)
  show "tokenize (Lexer_init [CHR 0xB2]) = Inl (ConversionError [CHR 0xB2])" by code_simp
  show "list_all recognized (replicate 4301 CHR ''1'')"
    by (simp add: list_all_iff recognized_def isdigit_def)
  show "list_all plain (replicate 4301 CHR ''1'')"
    by (simp add: list_all_iff plain_def isdecimal_def)
  show "tokenize (Lexer_init (replicate 4301 CHR ''1''))
        = Inl (ConversionError (replicate 4301 CHR ''1''))"
    by (rule long_integer_literal)
       (simp_all add: list_all_iff isdecimal_def int_max_str_digits_def)
qed

lemma parse_only_eof:
  "parse_factor (Parser_init [Token EOF v p]) = Inl (UnexpectedToken (Token EOF v p))"
  "parse (Parser_init [Token EOF v p]) = Inl (UnexpectedToken (Token EOF v p))"
  by (simp_all add: parse_def Parser_init_def parse_expression.simps parse_term.simps
      parse_factor.simps current_token_def)

lemma tokenize_blank:
  assumes "list_all isspace s"
  shows "tokenize (Lexer_init s) = Inr [Token EOF NoneValue (length s)]"
proof -
  let ?end = "(Lexer_init s)\<lparr>lx_position := length s\<rparr>"
  have e: "get_next_token ?end = Inr (Token EOF NoneValue (length s), ?end)"
    by (subst get_next_token_cases) (simp add: rest_def)
  have "get_next_token (Lexer_init s) = Inr (Token EOF NoneValue (length s), ?end)"
  proof (cases s)
    case Nil
    then show ?thesis by (subst get_next_token_cases) (simp add: Lexer_init_def rest_def)
  next
    case (Cons c cs)
    with assms have "isspace c" by simp
    moreover from assms have tw: "takeWhile isspace s = s"
      by (simp add: takeWhile_eq_all_conv list_all_iff)
    have "skip_whitespace (Lexer_init s) = ?end"
      by (simp only: skip_whitespace_eq rest_Lexer_init tw lx_position_Lexer_init) simp
    ultimately show ?thesis using Cons e
      by (subst get_next_token_cases) simp
  qed
  then show ?thesis by (simp add: tokenize_def tokenize_loop.simps)
qed

text \<open>
  C10. For the empty text and for every text of white space only,
  \<open>parse_expression_from_string\<close> returns no tree: \<open>tokenize\<close> yields the \<open>EOF\<close> token
  alone, at the offset of the end of the text, \<open>parse_factor\<close> fails on it with the
  unexpected-token error, and that error is the result.
\<close>

theorem blank_text_is_rejected:
  "(list_all isspace s \<longrightarrow>
      tokenize (Lexer_init s) = Inr [Token EOF NoneValue (length s)]
      \<and> parse_factor (Parser_init [Token EOF NoneValue (length s)])
          = Inl (UnexpectedToken (Token EOF NoneValue (length s)))
      \<and> parse_expression_from_string s = Inl (UnexpectedToken (Token EOF NoneValue (length s))))
   \<and> parse_expression_from_string [] = Inl (UnexpectedToken (Token EOF NoneValue 0))"
proof (intro conjI impI)
  assume b: "list_all isspace s"
  then show t: "tokenize (Lexer_init s) = Inr [Token EOF NoneValue (length s)]"
    by (rule tokenize_blank)
  show "parse_factor (Parser_init [Token EOF NoneValue (length s)])
          = Inl (UnexpectedToken (Token EOF NoneValue (length s)))"
    by (rule parse_only_eof)
  from t show "parse_expression_from_string s
      = Inl (UnexpectedToken (Token EOF NoneValue (length s)))"
    by (simp add: parse_expression_from_string_def parse_only_eof)
next
  have "tokenize (Lexer_init []) = Inr [Token EOF NoneValue (length ([] :: string))]"
    by (rule tokenize_blank) simp
  then show "parse_expression_from_string [] = Inl (UnexpectedToken (Token EOF NoneValue 0))"
    by (simp add: parse_expression_from_string_def parse_only_eof)
qed

theorem blank_text_is_rejected_witness:
  "parse_expression_from_string [CHR '' '', CHR 0x09, CHR 0x0A]
     = Inl (UnexpectedToken (Token EOF NoneValue 3))"
proof -
  have "list_all isspace [CHR '' '', CHR 0x09, CHR 0x0A]" by (simp add: isspace_def)
  with blank_text_is_rejected [of "[CHR '' '', CHR 0x09, CHR 0x0A]"] show ?thesis by simp
qed

end
